theory Spec2Isabelle
  imports Main
begin

section \<open>Nodes as values\<close>

text \<open>
  A parse5 node is a tagged union, told apart by its \<open>nodeName\<close>: \<open>#document\<close>,
  \<open>#document-fragment\<close>, \<open>#text\<close>, \<open>#comment\<close>, or a tag name (then \<open>tagName\<close> is
  present and equal to \<open>nodeName\<close>). Documents, fragments and elements carry a
  \<open>childNodes\<close> array, a text node carries \<open>value\<close>, a comment carries \<open>data\<close>.
  A tag name never begins with \<open>#\<close>, so the kind tests \<open>isElement\<close>
  (\<open>nodeName === tagName\<close>), \<open>isTextNode\<close> (\<open>nodeName === '#text'\<close>) and the others
  tell the five variants apart. The functions of this section only look downwards from a node (never at
  \<open>parentNode\<close>), so a subtree is modelled by its value. An in-place update of a child
  object is the replacement of that child in its parent's list; this is exact as long
  as no node object occurs twice below the node the function is called on.
\<close>

datatype node =
    Document "node list"
  | DocumentFragment "node list"
  | Element string "(string \<times> string) list" "node list"
  | TextNode string
  | CommentNode string

fun childNodes :: "node \<Rightarrow> node list option" where
  "childNodes (Document cs) = Some cs"
| "childNodes (DocumentFragment cs) = Some cs"
| "childNodes (Element t as cs) = Some cs"
| "childNodes (TextNode v) = None"
| "childNodes (CommentNode d) = None"

fun setChildNodes :: "node \<Rightarrow> node list \<Rightarrow> node" where
  "setChildNodes (Document cs) cs' = Document cs'"
| "setChildNodes (DocumentFragment cs) cs' = DocumentFragment cs'"
| "setChildNodes (Element t as cs) cs' = Element t as cs'"
| "setChildNodes (TextNode v) cs' = TextNode v"
| "setChildNodes (CommentNode d) cs' = CommentNode d"

fun isDocument :: "node \<Rightarrow> bool" where
  "isDocument (Document cs) = True"
| "isDocument n = False"

fun isDocumentFragment :: "node \<Rightarrow> bool" where
  "isDocumentFragment (DocumentFragment cs) = True"
| "isDocumentFragment n = False"

fun isElement :: "node \<Rightarrow> bool" where
  "isElement (Element t as cs) = True"
| "isElement n = False"

fun isTextNode :: "node \<Rightarrow> bool" where
  "isTextNode (TextNode v) = True"
| "isTextNode n = False"

fun isCommentNode :: "node \<Rightarrow> bool" where
  "isCommentNode (CommentNode d) = True"
| "isCommentNode n = False"

definition newTextNode :: "string \<Rightarrow> node" where
  "newTextNode v = TextNode v"

subsection \<open>Predicate combinators (dom5.ts, dom5.js)\<close>

text \<open>
  \<open>AND\<close> and \<open>OR\<close> copy their arguments into the array \<open>rules\<close> and return a
  closure that loops over it from index 0: \<open>AND\<close> returns false at the first rule
  that fails and true after the loop, \<open>OR\<close> returns true at the first rule that
  holds and false after the loop.
\<close>

fun AND :: "('a \<Rightarrow> bool) list \<Rightarrow> 'a \<Rightarrow> bool" where
  "AND [] n = True"
| "AND (r # rules) n = (if \<not> r n then False else AND rules n)"

fun OR :: "('a \<Rightarrow> bool) list \<Rightarrow> 'a \<Rightarrow> bool" where
  "OR [] n = False"
| "OR (r # rules) n = (if r n then True else OR rules n)"

definition NOT :: "('a \<Rightarrow> bool) \<Rightarrow> 'a \<Rightarrow> bool" where
  "NOT predicateFn n = (\<not> predicateFn n)"

subsection \<open>Walking down (dom5.ts)\<close>

text \<open>
  \<open>nodeWalkAll(node, predicate, matches)\<close> pushes \<open>node\<close> when the predicate holds
  and then walks each child in order with the same accumulator.
\<close>

lemma childNodes_size [termination_simp]:
  "childNodes n = Some cs \<Longrightarrow> c \<in> set cs \<Longrightarrow> size c < size n"
  by (cases n) (auto simp: less_Suc_eq_le size_list_estimation')

fun nodeWalkAll :: "node \<Rightarrow> (node \<Rightarrow> bool) \<Rightarrow> node list \<Rightarrow> node list" where
  "nodeWalkAll n p matches =
     (let matches1 = (if p n then matches @ [n] else matches) in
      case childNodes n of
        None \<Rightarrow> matches1
      | Some cs \<Rightarrow> fold (\<lambda>c acc. nodeWalkAll c p acc) cs matches1)"

declare nodeWalkAll.simps [simp del]

text \<open>
  \<open>getTextContent\<close> (dom5.ts): the data of a comment, the value of a text node,
  and for any other node the joined text contents of all text nodes that
  \<open>nodeWalkAll(node, isTextNode)\<close> finds below it.
\<close>

lemma nodeWalkAll_subset:
  "set (nodeWalkAll n p ms) \<subseteq> set ms \<union> {x. p x \<and> size x \<le> size n}"
proof (induction n p ms rule: nodeWalkAll.induct)
  case (1 n p matches)
  let ?m1 = "if p n then matches @ [n] else matches"
  have m1: "set ?m1 \<subseteq> set matches \<union> {x. p x \<and> size x \<le> size n}" by auto
  show ?case
  proof (cases "childNodes n")
    case None
    then show ?thesis using m1 by (subst nodeWalkAll.simps) (auto simp: Let_def)
  next
    case (Some cs)
    have "set (fold (\<lambda>c acc. nodeWalkAll c p acc) ds acc)
            \<subseteq> set acc \<union> {x. p x \<and> size x \<le> size n}"
      if "set ds \<subseteq> set cs" for ds acc
      using that
    proof (induction ds arbitrary: acc)
      case Nil
      then show ?case by simp
    next
      case (Cons d ds)
      have d: "d \<in> set cs" using Cons.prems by simp
      have "set (nodeWalkAll d p acc) \<subseteq> set acc \<union> {x. p x \<and> size x \<le> size d}"
        using "1.IH"[OF refl Some d] .
      moreover have "size d < size n" using childNodes_size[OF Some d] .
      ultimately have "set (nodeWalkAll d p acc) \<subseteq> set acc \<union> {x. p x \<and> size x \<le> size n}"
        by auto
      moreover have "set (fold (\<lambda>c acc. nodeWalkAll c p acc) ds (nodeWalkAll d p acc))
            \<subseteq> set (nodeWalkAll d p acc) \<union> {x. p x \<and> size x \<le> size n}"
        using Cons.IH Cons.prems by simp
      ultimately show ?case by auto
    qed
    from this[of cs ?m1]
    have "set (fold (\<lambda>c acc. nodeWalkAll c p acc) cs ?m1)
            \<subseteq> set ?m1 \<union> {x. p x \<and> size x \<le> size n}" by simp
    have "set (nodeWalkAll n p matches) = set (fold (\<lambda>c acc. nodeWalkAll c p acc) cs ?m1)"
      using Some by (subst nodeWalkAll.simps) (simp add: Let_def)
    with \<open>set (fold (\<lambda>c acc. nodeWalkAll c p acc) cs ?m1)
            \<subseteq> set ?m1 \<union> {x. p x \<and> size x \<le> size n}\<close> m1
    show ?thesis by blast
  qed
qed

function getTextContent :: "node \<Rightarrow> string" where
  "getTextContent (CommentNode d) = d"
| "getTextContent (TextNode v) = v"
| "getTextContent (Document cs) =
     concat (map getTextContent (nodeWalkAll (Document cs) isTextNode []))"
| "getTextContent (DocumentFragment cs) =
     concat (map getTextContent (nodeWalkAll (DocumentFragment cs) isTextNode []))"
| "getTextContent (Element t as cs) =
     concat (map getTextContent (nodeWalkAll (Element t as cs) isTextNode []))"
  by pat_completeness auto
termination
proof (relation "measure size")
  show "wf (measure size)" by simp
next
  fix cs x
  assume "x \<in> set (nodeWalkAll (Document cs) isTextNode [])"
  with nodeWalkAll_subset[of "Document cs" isTextNode "[]"]
  have "isTextNode x" "size x \<le> size (Document cs)" by auto
  then show "(x, Document cs) \<in> measure size" by (cases x) auto
next
  fix cs x
  assume "x \<in> set (nodeWalkAll (DocumentFragment cs) isTextNode [])"
  with nodeWalkAll_subset[of "DocumentFragment cs" isTextNode "[]"]
  have "isTextNode x" "size x \<le> size (DocumentFragment cs)" by auto
  then show "(x, DocumentFragment cs) \<in> measure size" by (cases x) auto
next
  fix t as cs x
  assume "x \<in> set (nodeWalkAll (Element t as cs) isTextNode [])"
  with nodeWalkAll_subset[of "Element t as cs" isTextNode "[]"]
  have "isTextNode x" "size x \<le> size (Element t as cs)" by auto
  then show "(x, Element t as cs) \<in> measure size" by (cases x) auto
qed

text \<open>
  \<open>hasTextValue\<close> of dom5.ts compares the whole text content.
\<close>

definition hasTextValue :: "string \<Rightarrow> node \<Rightarrow> bool" where
  "hasTextValue v n = (getTextContent n = v)"

subsection \<open>Text matching in dom5.js\<close>

text \<open>
  \<open>normalizeTextContent\<close> (dom5.js) starts from the empty string and, for an
  element only, appends the value of each child that is a text node, skipping every
  other child. \<open>textLoop\<close> is its loop, the text so far as second argument.
\<close>

fun textLoop :: "node list \<Rightarrow> string \<Rightarrow> string" where
  "textLoop [] text = text"
| "textLoop (TextNode v # cs) text = textLoop cs (text @ v)"
| "textLoop (cn # cs) text = textLoop cs text"

fun normalizeTextContent :: "node \<Rightarrow> string" where
  "normalizeTextContent (Element t as cs) = textLoop cs []"
| "normalizeTextContent n = []"

fun hasTextValue_js :: "string \<Rightarrow> node \<Rightarrow> bool" where
  "hasTextValue_js v (Element t as cs) = (normalizeTextContent (Element t as cs) = v)"
| "hasTextValue_js v (TextNode x) = (x = v)"
| "hasTextValue_js v (CommentNode d) = (d = v)"
| "hasTextValue_js v n = False"

subsection \<open>normalize (dom5.ts)\<close>

text \<open>
  \<open>collapseTextRange(parent, start, end)\<close>, on the child list of \<open>parent\<close>: joins
  the text contents of the children at \<open>start..end\<close>, splices these children out,
  and splices one new text node in at \<open>start\<close> when the joined text is not empty.
  \<open>normalize\<close> only calls it with \<open>start \<le> end < length\<close>.
\<close>

definition collapseTextRange :: "node list \<Rightarrow> nat \<Rightarrow> nat \<Rightarrow> node list" where
  "collapseTextRange cs start end' =
     (let text = concat (map getTextContent (take (Suc end' - start) (drop start cs)));
          cs1 = take start cs @ drop (start + (Suc end' - start)) cs
      in if text \<noteq> [] then take start cs1 @ [newTextNode text] @ drop start cs1 else cs1)"

text \<open>
  The loop of \<open>normalize\<close>: \<open>normalize_loop rec (i + 1) cs textRangeStart\<close> is the
  iteration at index \<open>i\<close>, running down to index 0, on the current child list
  \<open>cs\<close>; \<open>None\<close> stands for \<open>textRangeStart = -1\<close>, and \<open>rec\<close> is the recursive
  call on a child that is not a text node, which updates that child in place. The
  index is always in range: the loop starts at \<open>length - 1\<close> and every splice
  touches only positions above \<open>i\<close>; the first branch, which leaves the loop on an
  index out of range, is never taken from \<open>normalize\<close>.
\<close>

fun normalize_loop :: "(node \<Rightarrow> node) \<Rightarrow> nat \<Rightarrow> node list \<Rightarrow> nat option \<Rightarrow> node list" where
  "normalize_loop rec 0 cs textRangeStart = cs"
| "normalize_loop rec (Suc i) cs textRangeStart =
     (if length cs \<le> i then cs
      else let n = cs ! i in
        if isTextNode n then
          (let start = (case textRangeStart of None \<Rightarrow> i | Some s \<Rightarrow> s) in
           if i = 0 then normalize_loop rec i (collapseTextRange cs 0 start) (Some start)
           else normalize_loop rec i cs (Some start))
        else
          (let cs1 = cs[i := rec n] in
           case textRangeStart of
             None \<Rightarrow> normalize_loop rec i cs1 None
           | Some s \<Rightarrow> normalize_loop rec i (collapseTextRange cs1 (i + 1) s) None))"

lemma take_collapseTextRange:
  "i < start \<Longrightarrow> start \<le> length cs \<Longrightarrow> take i (collapseTextRange cs start e) = take i cs"
  by (simp add: collapseTextRange_def Let_def min_def)

lemma normalize_loop_agree:
  "(\<And>x. x \<in> set (take k cs) \<Longrightarrow> f x = g x) \<Longrightarrow>
   normalize_loop f k cs trs = normalize_loop g k cs trs"
proof (induction k arbitrary: cs trs)
  case 0
  then show ?case by simp
next
  case (Suc i)
  show ?case
  proof (cases "length cs \<le> i")
    case True
    then show ?thesis by simp
  next
    case False
    then have i: "i < length cs" by simp
    have mem: "cs ! i \<in> set (take (Suc i) cs)"
      using i by (simp add: take_Suc_conv_app_nth)
    have fg: "f (cs ! i) = g (cs ! i)" using Suc.prems[OF mem] .
    have sub: "set (take i cs) \<subseteq> set (take (Suc i) cs)"
      by (meson Suc_n_not_le_n nat_le_linear set_take_subset_set_take)
    have step: "normalize_loop f i cs' t = normalize_loop g i cs' t"
      if "take i cs' = take i cs" for cs' t
      using Suc.IH[of cs' t] Suc.prems sub that by auto
    have a: "take i (cs[i := g (cs ! i)]) = take i cs" by simp
    have b: "take i (collapseTextRange (cs[i := g (cs ! i)]) (i + 1) s) = take i cs" for s
      using i by (simp add: take_collapseTextRange)
    have c: "i = 0 \<Longrightarrow> take i (collapseTextRange cs 0 s) = take i cs" for s by simp
    show ?thesis
      using i fg step[OF a] step[OF b] step[OF c] step[OF refl]
      by (simp add: Let_def split: option.splits)
  qed
qed

lemma normalize_loop_cong [fundef_cong]:
  "k = k' \<Longrightarrow> cs = cs' \<Longrightarrow> trs = trs' \<Longrightarrow> (\<And>x. x \<in> set cs' \<Longrightarrow> f x = g x) \<Longrightarrow>
   normalize_loop f k cs trs = normalize_loop g k' cs' trs'"
  using normalize_loop_agree[of k cs f g trs] by (auto dest: in_set_takeD)

fun normalize_node :: "node \<Rightarrow> node" where
  "normalize_node n =
     (if \<not> (isElement n \<or> isDocument n \<or> isDocumentFragment n) then n
      else case childNodes n of
        None \<Rightarrow> n
      | Some cs \<Rightarrow> setChildNodes n (normalize_loop normalize_node (length cs) cs None))"

declare normalize_node.simps [simp del]

subsection \<open>Reference listings\<close>

text \<open>
  The reference notions the properties below are stated against: the document
  order (preorder) listing of a subtree, the concatenation of the values of the
  direct text-node children of a child list, and the concatenation of the values of
  all text nodes below a node, in document order.
\<close>

fun preorder :: "node \<Rightarrow> node list" where
  "preorder n =
     n # (case childNodes n of None \<Rightarrow> [] | Some cs \<Rightarrow> concat (map preorder cs))"

declare preorder.simps [simp del]

fun directTextValues :: "node list \<Rightarrow> string" where
  "directTextValues [] = []"
| "directTextValues (TextNode v # cs) = v @ directTextValues cs"
| "directTextValues (c # cs) = directTextValues cs"

fun descendantText :: "node \<Rightarrow> string" where
  "descendantText (TextNode v) = v"
| "descendantText (CommentNode d) = []"
| "descendantText (Document cs) = concat (map descendantText cs)"
| "descendantText (DocumentFragment cs) = concat (map descendantText cs)"
| "descendantText (Element t as cs) = concat (map descendantText cs)"

definition textsBelow :: "node \<Rightarrow> string" where
  "textsBelow n = concat (map getTextContent (filter isTextNode (preorder n)))"

text \<open>
  The reference for \<open>normalize\<close> on a child list: every maximal run of adjacent
  text nodes becomes one text node holding the concatenation of their values, or
  nothing when that concatenation is empty; every other child is replaced by its
  image under \<open>rec\<close>. \<open>mergeTexts rec acc cs\<close> reads \<open>cs\<close> from the left with the text
  \<open>acc\<close> of the run that is open.
\<close>

definition emitText :: "string \<Rightarrow> node list" where
  "emitText acc = (if acc = [] then [] else [TextNode acc])"

fun mergeTexts :: "(node \<Rightarrow> node) \<Rightarrow> string \<Rightarrow> node list \<Rightarrow> node list" where
  "mergeTexts rec acc [] = emitText acc"
| "mergeTexts rec acc (TextNode v # cs) = mergeTexts rec (acc @ v) cs"
| "mergeTexts rec acc (c # cs) = emitText acc @ rec c # mergeTexts rec [] cs"

text \<open>
  The child list that \<open>normalize\<close> leaves in a parent whose child list was \<open>cs\<close>.
\<close>

definition normalizedChildren :: "node list \<Rightarrow> node list" where
  "normalizedChildren cs = normalize_loop normalize_node (length cs) cs None"

section \<open>Generators\<close>

text \<open>
  A run of a generator function is the sequence of the values it yields, ended by
  its return (\<open>Done\<close>) or by an exception (\<open>Throw\<close>). The traversals recurse
  through the references of a mutable object graph and do not return on a cyclic
  one, so they take a bound on the depth of their recursion; \<open>OutOfFuel\<close> ends a run
  that reached the bound. A consumer sees the yielded values one at a time, in
  order, and may stop before the end.
\<close>

datatype error = ParentHasNoChildren | ParentDoesNotKnowChild | TypeError

datatype 'a iter = Done | Yield 'a "'a iter" | Throw error | OutOfFuel

datatype 'a outcome = Return 'a | Raise error | NoReturn

text \<open>\<open>yield* a\<close> followed by the rest \<open>b\<close> of the generator body.\<close>

fun iappend :: "'a iter \<Rightarrow> 'a iter \<Rightarrow> 'a iter" where
  "iappend Done b = b"
| "iappend (Yield x a) b = Yield x (iappend a b)"
| "iappend (Throw e) b = Throw e"
| "iappend OutOfFuel b = OutOfFuel"

text \<open>\<open>for (const x of a) { yield* f(x); }\<close>\<close>

fun ibind :: "'a iter \<Rightarrow> ('a \<Rightarrow> 'b iter) \<Rightarrow> 'b iter" where
  "ibind Done f = Done"
| "ibind (Yield x a) f = iappend (f x) (ibind a f)"
| "ibind (Throw e) f = Throw e"
| "ibind OutOfFuel f = OutOfFuel"

text \<open>Iterating an array yields its elements in order.\<close>

fun of_list :: "'a list \<Rightarrow> 'a iter" where
  "of_list [] = Done"
| "of_list (x # xs) = Yield x (of_list xs)"

subsection \<open>iteration.ts\<close>

text \<open>
  \<open>reversedView(arr, initialIndex)\<close> yields \<open>arr[initialIndex]\<close> down to \<open>arr[0]\<close>;
  the default \<open>initialIndex\<close> is \<open>arr.length - 1\<close>. A read past the end of the array
  gives \<open>undefined\<close>, on which every consumer in the sources raises a TypeError; no
  caller starts past the end.
\<close>

function reversedView :: "'a list \<Rightarrow> int \<Rightarrow> 'a iter" where
  "reversedView arr index =
     (if index \<ge> 0 then
        (if nat index < length arr
         then Yield (arr ! nat index) (reversedView arr (index - 1))
         else Throw TypeError)
      else Done)"
  by pat_completeness auto
termination
  by (relation "measure (\<lambda>(arr, index). nat (index + 1))") auto

declare reversedView.simps [simp del]

text \<open>
  \<open>depthFirst(node, getChildNodes)\<close> yields \<open>node\<close>, returns when the accessor gives
  \<open>undefined\<close>, and otherwise delegates to \<open>depthFirst\<close> of each child in order.
  \<open>depthFirstReversed\<close> delegates to each child in reverse order, when the accessor
  gives an array, and yields \<open>node\<close> last.
\<close>

fun depthFirst :: "nat \<Rightarrow> ('n \<Rightarrow> 'n list option) \<Rightarrow> 'n \<Rightarrow> 'n iter" where
  "depthFirst 0 getChildNodes node = OutOfFuel"
| "depthFirst (Suc fuel) getChildNodes node =
     Yield node
       (case getChildNodes node of
          None \<Rightarrow> Done
        | Some cs \<Rightarrow> ibind (of_list cs) (depthFirst fuel getChildNodes))"

fun depthFirstReversed :: "nat \<Rightarrow> ('n \<Rightarrow> 'n list option) \<Rightarrow> 'n \<Rightarrow> 'n iter" where
  "depthFirstReversed 0 getChildNodes node = OutOfFuel"
| "depthFirstReversed (Suc fuel) getChildNodes node =
     iappend
       (case getChildNodes node of
          None \<Rightarrow> Done
        | Some cs \<Rightarrow>
            ibind (reversedView cs (int (length cs) - 1))
              (depthFirstReversed fuel getChildNodes))
       (Yield node Done)"

section \<open>Nodes in the store\<close>

text \<open>
  The upward traversals and the mutation functions follow and assign the
  \<open>parentNode\<close> and \<open>childNodes\<close> fields of node objects, so there a node is a
  reference into a store of objects. An object holds its \<open>nodeName\<close>, its
  \<open>childNodes\<close> array if it has one, and its \<open>parentNode\<close> if it has one (\<open>None\<close>
  stands for \<open>undefined\<close> and, in dom5.ts, also for \<open>null\<close>). Every reference
  denotes an object. The arrays are held by value: no two objects of a parse5 tree
  share one \<open>childNodes\<close> array.
\<close>

type_synonym ref = nat

record obj =
  o_nodeName :: string
  o_childNodes :: "ref list option"
  o_parentNode :: "ref option"

type_synonym store = "ref \<Rightarrow> obj"

definition defaultChildNodes :: "store \<Rightarrow> ref \<Rightarrow> ref list option" where
  "defaultChildNodes h node = o_childNodes (h node)"

text \<open>\<open>Array.prototype.indexOf\<close>: the first index of the element, or -1.\<close>

fun indexOf :: "'a list \<Rightarrow> 'a \<Rightarrow> int" where
  "indexOf [] x = - 1"
| "indexOf (y # ys) x =
     (if y = x then 0 else (let r = indexOf ys x in if r < 0 then - 1 else r + 1))"

text \<open>
  \<open>previousSiblings(node)\<close> returns at once when \<open>node\<close> has no parent, throws when
  the parent has no \<open>childNodes\<close> or \<open>indexOf\<close> does not find \<open>node\<close> there, and
  otherwise yields the siblings before \<open>node\<close>, nearest first.
\<close>

definition previousSiblings :: "store \<Rightarrow> ref \<Rightarrow> ref iter" where
  "previousSiblings h node =
     (case o_parentNode (h node) of
        None \<Rightarrow> Done
      | Some parent \<Rightarrow>
          (case o_childNodes (h parent) of
             None \<Rightarrow> Throw ParentHasNoChildren
           | Some siblings \<Rightarrow>
               (let index = indexOf siblings node in
                if index = - 1 then Throw ParentDoesNotKnowChild
                else reversedView siblings (index - 1))))"

subsection \<open>walking.ts\<close>

text \<open>
  \<open>iteratePrior(node)\<close> delegates to \<open>depthFirstReversed\<close> of each previous sibling,
  then yields the parent, if there is one, and delegates to \<open>iteratePrior\<close> of the
  parent. \<open>iteratePriorIncludingNode\<close> yields \<open>node\<close> first.
\<close>

fun iteratePrior :: "nat \<Rightarrow> store \<Rightarrow> ref \<Rightarrow> ref iter" where
  "iteratePrior 0 h node = OutOfFuel"
| "iteratePrior (Suc fuel) h node =
     iappend
       (ibind (previousSiblings h node) (depthFirstReversed fuel (defaultChildNodes h)))
       (case o_parentNode (h node) of
          Some parent \<Rightarrow> Yield parent (iteratePrior fuel h parent)
        | None \<Rightarrow> Done)"

definition iteratePriorIncludingNode :: "nat \<Rightarrow> store \<Rightarrow> ref \<Rightarrow> ref iter" where
  "iteratePriorIncludingNode fuel h node = Yield node (iteratePrior fuel h node)"

text \<open>
  \<open>find(iter, predicate)\<close> pulls values until one satisfies the predicate and returns
  it, or returns \<open>null\<close> at the end; an exception of the generator propagates.
\<close>

fun find_iter :: "'a iter \<Rightarrow> ('a \<Rightarrow> bool) \<Rightarrow> 'a option outcome" where
  "find_iter Done predicate = Return None"
| "find_iter (Yield v it) predicate =
     (if predicate v then Return (Some v) else find_iter it predicate)"
| "find_iter (Throw e) predicate = Raise e"
| "find_iter OutOfFuel predicate = NoReturn"

text \<open>
  \<open>filter(iter, predicate, matches)\<close> pushes every value that satisfies the
  predicate.
\<close>

fun filter_iter :: "'a iter \<Rightarrow> ('a \<Rightarrow> bool) \<Rightarrow> 'a list \<Rightarrow> 'a list outcome" where
  "filter_iter Done predicate matches = Return matches"
| "filter_iter (Yield v it) predicate matches =
     filter_iter it predicate (if predicate v then matches @ [v] else matches)"
| "filter_iter (Throw e) predicate matches = Raise e"
| "filter_iter OutOfFuel predicate matches = NoReturn"

definition nodeWalkPrior :: "nat \<Rightarrow> store \<Rightarrow> ref \<Rightarrow> (ref \<Rightarrow> bool) \<Rightarrow> ref option outcome" where
  "nodeWalkPrior fuel h node predicate = find_iter (iteratePrior fuel h node) predicate"

definition nodeWalkAllPrior :: "nat \<Rightarrow> store \<Rightarrow> ref \<Rightarrow> (ref \<Rightarrow> bool) \<Rightarrow> ref list outcome" where
  "nodeWalkAllPrior fuel h node predicate =
     filter_iter (iteratePriorIncludingNode fuel h node) predicate []"

subsection \<open>Mutation (dom5.ts)\<close>

text \<open>
  \<open>Array.prototype.splice(start, deleteCount, ...items)\<close>: a negative \<open>start\<close> counts
  from the end, \<open>start\<close> is clamped to the array, and \<open>deleteCount\<close> to what is left
  after \<open>start\<close>. \<open>nth_opt\<close> is a read \<open>arr[index]\<close>, \<open>undefined\<close> out of range.
\<close>

definition splice_array :: "'a list \<Rightarrow> int \<Rightarrow> nat \<Rightarrow> 'a list \<Rightarrow> 'a list" where
  "splice_array arr start deleteCount items =
     (let len = length arr;
          s = (if start < 0 then nat (max (int len + start) 0) else min (nat start) len);
          d = min deleteCount (len - s)
      in take s arr @ items @ drop (s + d) arr)"

definition nth_opt :: "'a list \<Rightarrow> int \<Rightarrow> 'a option" where
  "nth_opt arr index =
     (if 0 \<le> index \<and> nat index < length arr then Some (arr ! nat index) else None)"

definition isDocumentFragment_obj :: "obj \<Rightarrow> bool" where
  "isDocumentFragment_obj node = (o_nodeName node = ''#document-fragment'')"

definition set_parentNode :: "store \<Rightarrow> ref \<Rightarrow> ref option \<Rightarrow> store" where
  "set_parentNode h node parent = h(node := (h node)\<lparr>o_parentNode := parent\<rparr>)"

definition set_childNodes :: "store \<Rightarrow> ref \<Rightarrow> ref list \<Rightarrow> store" where
  "set_childNodes h node cs = h(node := (h node)\<lparr>o_childNodes := Some cs\<rparr>)"

text \<open>
  \<open>remove(node)\<close>: when \<open>node\<close> has a parent, splices one element out of the
  parent's \<open>childNodes\<close> at \<open>indexOf(node)\<close>; then clears \<open>node.parentNode\<close>. Reading
  \<open>indexOf\<close> of a missing \<open>childNodes\<close> raises a TypeError.
\<close>

definition remove :: "store \<Rightarrow> ref \<Rightarrow> error + store" where
  "remove h node =
     (case o_parentNode (h node) of
        Some parent \<Rightarrow>
          (case o_childNodes (h parent) of
             None \<Rightarrow> Inl TypeError
           | Some cs \<Rightarrow>
               (let idx = indexOf cs node;
                    h1 = set_childNodes h parent (splice_array cs idx 1 [])
                in Inr (set_parentNode h1 node None)))
      | None \<Rightarrow> Inr (set_parentNode h node None))"

text \<open>
  \<open>insertNode(parent, index, newNode, replace)\<close>. The nodes to insert
  (\<open>newNodes_of\<close>, the block under \<open>if (newNode)\<close>) are none without \<open>newNode\<close>, the
  children of \<open>newNode\<close> when it is a fragment, whose \<open>childNodes\<close> becomes a new empty
  array, and otherwise \<open>newNode\<close> itself, after \<open>remove(newNode)\<close>. Then, on the
  store as it is by now, the node at \<open>index\<close> is noted when \<open>replace\<close> is set, the
  nodes are spliced into \<open>parent.childNodes\<close> at \<open>index\<close> (over one element when
  \<open>replace\<close> is set), each gets \<open>parent\<close> as its \<open>parentNode\<close>, and the noted node
  has its \<open>parentNode\<close> cleared. A fragment without \<open>childNodes\<close> makes \<open>forEach\<close>
  raise a TypeError, as does a parent without \<open>childNodes\<close>.
\<close>

definition newNodes_of :: "store \<Rightarrow> ref option \<Rightarrow> error + (ref list \<times> store)" where
  "newNodes_of h newNode =
     (case newNode of
        None \<Rightarrow> Inr ([], h)
      | Some n \<Rightarrow>
          if isDocumentFragment_obj (h n) then
            (case o_childNodes (h n) of
               None \<Rightarrow> Inl TypeError
             | Some newNodes \<Rightarrow> Inr (newNodes, set_childNodes h n []))
          else
            (case remove h n of
               Inl e \<Rightarrow> Inl e
             | Inr h1 \<Rightarrow> Inr ([n], h1)))"

definition insertNode :: "store \<Rightarrow> ref \<Rightarrow> int \<Rightarrow> ref option \<Rightarrow> bool \<Rightarrow> error + store" where
  "insertNode h parent index newNode replace =
     (if replace \<and> o_childNodes (h parent) = None then Inl TypeError
      else
        (case newNodes_of h newNode of
           Inl e \<Rightarrow> Inl e
         | Inr (newNodes, h1) \<Rightarrow>
             (case o_childNodes (h1 parent) of
                None \<Rightarrow> Inl TypeError
              | Some cs \<Rightarrow>
                  (let removedNode = (if replace then nth_opt cs index else None);
                       h2 = set_childNodes h1 parent
                              (splice_array cs index (if replace then 1 else 0) newNodes);
                       h3 = fold (\<lambda>n hh. set_parentNode hh n (Some parent)) newNodes h2
                   in case removedNode of
                        Some r \<Rightarrow> Inr (set_parentNode h3 r None)
                      | None \<Rightarrow> Inr h3))))"

definition replace :: "store \<Rightarrow> ref \<Rightarrow> ref option \<Rightarrow> error + store" where
  "replace h oldNode newNode =
     (case o_parentNode (h oldNode) of
        None \<Rightarrow> Inl TypeError
      | Some parent \<Rightarrow>
          (case o_childNodes (h parent) of
             None \<Rightarrow> Inl TypeError
           | Some cs \<Rightarrow> insertNode h parent (indexOf cs oldNode) newNode True))"

definition insertBefore :: "store \<Rightarrow> ref \<Rightarrow> ref \<Rightarrow> ref option \<Rightarrow> error + store" where
  "insertBefore h parent oldNode newNode =
     (case o_childNodes (h parent) of
        None \<Rightarrow> Inl TypeError
      | Some cs \<Rightarrow> insertNode h parent (indexOf cs oldNode) newNode False)"

definition append_node :: "store \<Rightarrow> ref \<Rightarrow> ref option \<Rightarrow> error + store" where
  "append_node h parent newNode =
     (case o_childNodes (h parent) of
        None \<Rightarrow> Inl TypeError
      | Some cs \<Rightarrow> insertNode h parent (int (length cs)) newNode False)"

subsection \<open>nodeWalkPrior in dom5.ts\<close>

text \<open>
  The older \<open>nodeWalkPrior(node, predicate)\<close> of dom5.ts. Without parent it returns
  \<open>undefined\<close>. Otherwise it takes the siblings before \<open>node\<close>
  (\<open>slice(0, indexOf(node))\<close>) from the last to the first: a sibling that
  satisfies the predicate is returned, and otherwise \<open>nodeWalkPrior\<close> is called on
  the sibling and its result assigned to \<open>found\<close>, which is not read. After the
  loop it returns the parent when the parent satisfies the predicate, and else
  \<open>nodeWalkPrior\<close> of the parent. \<open>slice_to arr end\<close> is \<open>arr.slice(0, end)\<close>, a
  negative \<open>end\<close> counting from the end of the array.
\<close>

definition slice_to :: "'a list \<Rightarrow> int \<Rightarrow> 'a list" where
  "slice_to arr end' =
     take (if end' < 0 then nat (max (int (length arr) + end') 0) else nat end') arr"

fun siblings_loop ::
  "(ref \<Rightarrow> ref option outcome) \<Rightarrow> (ref \<Rightarrow> bool) \<Rightarrow> ref list \<Rightarrow> ref option outcome" where
  "siblings_loop rec predicate [] = Return None"
| "siblings_loop rec predicate (sibling # before) =
     (if predicate sibling then Return (Some sibling)
      else (case rec sibling of
              Return found \<Rightarrow> siblings_loop rec predicate before
            | Raise e \<Rightarrow> Raise e
            | NoReturn \<Rightarrow> NoReturn))"

fun nodeWalkPrior_dom5 :: "nat \<Rightarrow> store \<Rightarrow> ref \<Rightarrow> (ref \<Rightarrow> bool) \<Rightarrow> ref option outcome" where
  "nodeWalkPrior_dom5 0 h node predicate = NoReturn"
| "nodeWalkPrior_dom5 (Suc fuel) h node predicate =
     (case o_parentNode (h node) of
        None \<Rightarrow> Return None
      | Some parent \<Rightarrow>
          (case o_childNodes (h parent) of
             None \<Rightarrow> Raise TypeError
           | Some cs \<Rightarrow>
               (let idx = indexOf cs node;
                    siblings = slice_to cs idx
                in case siblings_loop (\<lambda>s. nodeWalkPrior_dom5 fuel h s predicate) predicate
                          (rev siblings) of
                     Return (Some sibling) \<Rightarrow> Return (Some sibling)
                   | Return None \<Rightarrow>
                       if predicate parent then Return (Some parent)
                       else nodeWalkPrior_dom5 fuel h parent predicate
                   | Raise e \<Rightarrow> Raise e
                   | NoReturn \<Rightarrow> NoReturn)))"

section \<open>Reference notions for trees in the store\<close>

text \<open>
  A finite tree of node references, its document order (preorder) listing, its
  node count, its set of nodes and the number of its levels.
\<close>

datatype 'n tree = Tree 'n "'n tree list"

fun root :: "'n tree \<Rightarrow> 'n" where
  "root (Tree n ts) = n"

fun listing :: "'n tree \<Rightarrow> 'n list" where
  "listing (Tree n ts) = n # concat (map listing ts)"

fun node_count :: "'n tree \<Rightarrow> nat" where
  "node_count (Tree n ts) = Suc (sum_list (map node_count ts))"

fun nodes :: "'n tree \<Rightarrow> 'n set" where
  "nodes (Tree n ts) = insert n (\<Union>t \<in> set ts. nodes t)"

fun levels :: "'n tree \<Rightarrow> nat" where
  "levels (Tree n ts) = Suc (foldr max (map levels ts) 0)"

text \<open>
  \<open>unfolds getChildNodes t\<close>: the tree \<open>t\<close> is what the child accessor spans from
  \<open>root t\<close>. A node for which the accessor gives no array has no subtrees, and
  otherwise its subtrees are rooted at the elements of the array, in order.
\<close>

fun unfolds :: "('n \<Rightarrow> 'n list option) \<Rightarrow> 'n tree \<Rightarrow> bool" where
  "unfolds getChildNodes (Tree n ts) =
     ((case getChildNodes n of None \<Rightarrow> ts = [] | Some cs \<Rightarrow> cs = map root ts)
      \<and> list_all (unfolds getChildNodes) ts)"

text \<open>
  \<open>parents_below h t\<close>: every node below the root of \<open>t\<close> has the node it hangs
  under as its \<open>parentNode\<close>. \<open>tree_in_store h t\<close>: \<open>t\<close> is a whole tree of the store
  \<open>h\<close>: spanned by \<open>childNodes\<close>, no node occurring twice, every back-reference
  equal to the true container, and the root without parent.
\<close>

fun parents_below :: "store \<Rightarrow> ref tree \<Rightarrow> bool" where
  "parents_below h (Tree n ts) =
     list_all (\<lambda>t. o_parentNode (h (root t)) = Some n \<and> parents_below h t) ts"

definition tree_in_store :: "store \<Rightarrow> ref tree \<Rightarrow> bool" where
  "tree_in_store h t =
     (unfolds (defaultChildNodes h) t \<and> distinct (listing t) \<and> parents_below h t
      \<and> o_parentNode (h (root t)) = None)"

text \<open>
  The part of a document order listing up to and including a node, and the part
  strictly before it.
\<close>

definition strictly_before :: "'n \<Rightarrow> 'n list \<Rightarrow> 'n list" where
  "strictly_before n xs = takeWhile (\<lambda>x. x \<noteq> n) xs"

definition up_to :: "'n \<Rightarrow> 'n list \<Rightarrow> 'n list" where
  "up_to n xs = takeWhile (\<lambda>x. x \<noteq> n) xs @ [n]"

text \<open>
  The single-owner invariant of the store: a node that occurs in the \<open>childNodes\<close>
  of a node has that node as its \<open>parentNode\<close> (so it occurs under one parent only),
  and it occurs there once.
\<close>

definition children :: "store \<Rightarrow> ref \<Rightarrow> ref list" where
  "children h p = (case o_childNodes (h p) of None \<Rightarrow> [] | Some cs \<Rightarrow> cs)"

definition single_owner :: "store \<Rightarrow> bool" where
  "single_owner h =
     ((\<forall>p c. c \<in> set (children h p) \<longrightarrow> o_parentNode (h c) = Some p)
      \<and> (\<forall>p. distinct (children h p)))"

text \<open>
  \<open>owned_by h n p\<close>: node \<open>n\<close> occurs among the children of \<open>p\<close>, of no other node,
  and has \<open>p\<close> as its \<open>parentNode\<close>.
\<close>

definition owned_by :: "store \<Rightarrow> ref \<Rightarrow> ref \<Rightarrow> bool" where
  "owned_by h n p =
     (n \<in> set (children h p) \<and> (\<forall>q. n \<in> set (children h q) \<longrightarrow> q = p)
      \<and> o_parentNode (h n) = Some p)"

section \<open>Example stores\<close>

text \<open>A child accessor on four nodes: 0 has the children 1 and 2, 1 has the child 3.\<close>

definition gc_example :: "nat \<Rightarrow> nat list option" where
  "gc_example n =
     (if n = 0 then Some [1, 2] else if n = 1 then Some [3]
      else if n = 2 then Some [] else None)"

definition mk_obj :: "string \<Rightarrow> ref list option \<Rightarrow> ref option \<Rightarrow> obj" where
  "mk_obj name cs parent = \<lparr>o_nodeName = name, o_childNodes = cs, o_parentNode = parent\<rparr>"

text \<open>
  An inconsistent store: node 1 names node 0 as its parent, but the only child of
  node 0 is node 2.
\<close>

definition h_inconsistent :: store where
  "h_inconsistent =
     (\<lambda>r. mk_obj ''#text'' None None)
       (0 := mk_obj ''div'' (Some [2]) None,
        1 := mk_obj ''span'' (Some []) (Some 0),
        2 := mk_obj ''p'' (Some []) (Some 0))"

text \<open>
  A fragment, node 5, with the children 6 and 7, beside an element, node 0, with the
  children 1 and 2.
\<close>

definition h_two :: store where
  "h_two =
     (\<lambda>r. mk_obj ''#text'' None None)
       (0 := mk_obj ''div'' (Some [1, 2]) None,
        1 := mk_obj ''a'' (Some []) (Some 0),
        2 := mk_obj ''b'' (Some []) (Some 0),
        5 := mk_obj ''#document-fragment'' (Some [6, 7]) None,
        6 := mk_obj ''i'' (Some []) (Some 5),
        7 := mk_obj ''u'' (Some []) (Some 5))"

text \<open>
  A consistent tree of six nodes: the root 0 has the children 1 and 4, node 1 has
  the text children 2 and 3, node 4 has the child 5.
\<close>

definition h_tree :: store where
  "h_tree =
     (\<lambda>r. mk_obj ''#text'' None None)
       (0 := mk_obj ''#document'' (Some [1, 4]) None,
        1 := mk_obj ''div'' (Some [2, 3]) (Some 0),
        2 := mk_obj ''#text'' None (Some 1),
        3 := mk_obj ''#text'' None (Some 1),
        4 := mk_obj ''p'' (Some [5]) (Some 0),
        5 := mk_obj ''span'' (Some []) (Some 4))"

definition t_tree :: "ref tree" where
  "t_tree = Tree 0 [Tree 1 [Tree 2 [], Tree 3 []], Tree 4 [Tree 5 []]]"

section \<open>Properties\<close>

subsection \<open>Predicate combinators\<close>

text \<open>
  C9. The empty combinations are the boolean identities: \<open>AND()\<close> holds of every
  node and \<open>OR()\<close> holds of none.
\<close>

theorem AND_OR_empty: "AND [] n = True \<and> OR [] n = False"
  by simp

subsection \<open>Text matching\<close>

lemma textLoop_eq: "textLoop cs t = t @ directTextValues cs"
  by (induction cs t rule: textLoop.induct) auto

lemma fold_nodeWalkAll:
  "(\<And>c ms. c \<in> set cs \<Longrightarrow> nodeWalkAll c p ms = ms @ filter p (preorder c)) \<Longrightarrow>
   fold (\<lambda>c acc. nodeWalkAll c p acc) cs ms = ms @ filter p (concat (map preorder cs))"
  by (induction cs arbitrary: ms) auto

lemma nodeWalkAll_preorder: "nodeWalkAll n p ms = ms @ filter p (preorder n)"
proof (induction n p ms rule: nodeWalkAll.induct)
  case (1 n p matches)
  show ?case
  proof (cases "childNodes n")
    case None
    then show ?thesis
      by (subst nodeWalkAll.simps, subst preorder.simps) (simp add: Let_def)
  next
    case (Some cs)
    have "fold (\<lambda>c acc. nodeWalkAll c p acc) cs ms = ms @ filter p (concat (map preorder cs))" for ms
      by (rule fold_nodeWalkAll) (use "1.IH"[OF refl Some] in blast)
    then show ?thesis using Some
      by (subst nodeWalkAll.simps, subst preorder.simps) (simp add: Let_def)
  qed
qed

lemma textsBelow_children:
  assumes "childNodes n = Some cs"
  shows "textsBelow n = concat (map textsBelow cs)"
proof -
  have nt: "\<not> isTextNode n" using assms by (cases n) auto
  have "textsBelow n = concat (map getTextContent (filter isTextNode (concat (map preorder cs))))"
    unfolding textsBelow_def using assms nt by (subst preorder.simps) simp
  also have "\<dots> = concat (map textsBelow cs)"
    unfolding textsBelow_def by (induction cs) auto
  finally show ?thesis .
qed

lemma textsBelow_descendantText: "textsBelow n = descendantText n"
proof (induction n)
  case (TextNode v)
  show ?case unfolding textsBelow_def by (subst preorder.simps) simp
next
  case (CommentNode d)
  show ?case unfolding textsBelow_def by (subst preorder.simps) simp
next
  case (Document cs)
  have "textsBelow (Document cs) = concat (map textsBelow cs)"
    by (rule textsBelow_children) simp
  also have "map textsBelow cs = map descendantText cs" using Document by simp
  finally show ?case by simp
next
  case (DocumentFragment cs)
  have "textsBelow (DocumentFragment cs) = concat (map textsBelow cs)"
    by (rule textsBelow_children) simp
  also have "map textsBelow cs = map descendantText cs" using DocumentFragment by simp
  finally show ?case by simp
next
  case (Element t as cs)
  have "textsBelow (Element t as cs) = concat (map textsBelow cs)"
    by (rule textsBelow_children) simp
  also have "map textsBelow cs = map descendantText cs" using Element by simp
  finally show ?case by simp
qed

lemma getTextContent_descendantText:
  assumes "childNodes n = Some cs"
  shows "getTextContent n = concat (map descendantText cs)"
proof -
  have "getTextContent n = textsBelow n"
    using assms by (cases n) (simp_all add: textsBelow_def nodeWalkAll_preorder)
  also have "\<dots> = descendantText n" by (rule textsBelow_descendantText)
  also have "\<dots> = concat (map descendantText cs)" using assms by (cases n) auto
  finally show ?thesis .
qed

text \<open>
  C7 (as amended). The dom5.js predicate matches an element iff the values of its
  direct text-node children, concatenated, equal \<open>v\<close>; the dom5.ts predicate
  matches an element iff the values of all text nodes below it, concatenated in
  document order, equal \<open>v\<close>. Both match a text node on its value and a
  comment on its data.
\<close>

theorem hasTextValue_variants:
  "hasTextValue_js v (Element t as cs) = (directTextValues cs = v)
   \<and> hasTextValue_js v (TextNode x) = (x = v)
   \<and> hasTextValue_js v (CommentNode d) = (d = v)
   \<and> hasTextValue v (Element t as cs) = (concat (map descendantText cs) = v)
   \<and> hasTextValue v (TextNode x) = (x = v)
   \<and> hasTextValue v (CommentNode d) = (d = v)"
  using getTextContent_descendantText[of "Element t as cs" cs]
  by (simp add: textLoop_eq hasTextValue_def)

text \<open>
  The dom5.ts predicate matches \<open><div><span>x</span></div>\<close> on \<open>x\<close>, although
  the \<open>div\<close> has no direct text child.
\<close>

theorem hasTextValue_direct_counterexample:
  "hasTextValue ''x'' (Element ''div'' [] [Element ''span'' [] [TextNode ''x'']])
   \<and> directTextValues [Element ''span'' [] [TextNode ''x'']] \<noteq> ''x''"
  using getTextContent_descendantText[of "Element ''div'' [] [Element ''span'' [] [TextNode ''x'']]"
      "[Element ''span'' [] [TextNode ''x'']]"]
  by (simp add: hasTextValue_def)

subsection \<open>normalize\<close>

lemma isTextNode_iff: "isTextNode x \<longleftrightarrow> (\<exists>v. x = TextNode v)"
  by (cases x) auto

lemma mergeTexts_nontext:
  "\<not> isTextNode c \<Longrightarrow> mergeTexts rec acc (c # cs) = emitText acc @ rec c # mergeTexts rec [] cs"
  by (cases c) auto

lemma mergeTexts_run:
  "\<forall>x\<in>set run. isTextNode x \<Longrightarrow> mergeTexts rec acc run = emitText (acc @ directTextValues run)"
  by (induction run arbitrary: acc) (auto simp: isTextNode_iff)

lemma mergeTexts_append_run:
  "\<forall>x\<in>set run. isTextNode x \<Longrightarrow>
   mergeTexts rec acc (run @ cs) = mergeTexts rec (acc @ directTextValues run) cs"
  by (induction run arbitrary: acc) (auto simp: isTextNode_iff)

lemma mergeTexts_split:
  "\<not> isTextNode x \<Longrightarrow>
   mergeTexts rec acc (as @ x # bs) = mergeTexts rec acc as @ rec x # mergeTexts rec [] bs"
proof (induction rec acc as rule: mergeTexts.induct)
  case (1 rec acc)
  then show ?case by (simp add: mergeTexts_nontext)
qed (simp_all)

lemma getTextContent_run:
  "\<forall>x\<in>set run. isTextNode x \<Longrightarrow> concat (map getTextContent run) = directTextValues run"
  by (induction run) (auto simp: isTextNode_iff)

lemma collapseTextRange_run:
  assumes "\<forall>x\<in>set run. isTextNode x" "Suc e = length pre + length run"
  shows "collapseTextRange (pre @ run @ post) (length pre) e
         = pre @ emitText (directTextValues run) @ post"
proof -
  have l: "Suc e - length pre = length run" using assms(2) by simp
  have t: "take (Suc e - length pre) (drop (length pre) (pre @ run @ post)) = run"
    unfolding l by simp
  have d: "drop (length pre + (Suc e - length pre)) (pre @ run @ post) = post"
    unfolding l by simp
  show ?thesis
    unfolding collapseTextRange_def Let_def t d
    using assms(1) by (simp add: emitText_def newTextNode_def getTextContent_run)
qed

lemma normalize_loop_merge:
  assumes "\<forall>x\<in>set run. isTextNode x" "length pre = k" "k = 0 \<longrightarrow> run = []"
    "trs = (if run = [] then None else Some (k + length run - 1))"
  shows "normalize_loop rec k (pre @ run @ post) trs = mergeTexts rec [] (pre @ run) @ post"
  using assms
proof (induction k arbitrary: pre run post trs)
  case 0
  then show ?case by (simp add: emitText_def)
next
  case (Suc i)
  from Suc.prems(2) obtain pre' x where pre: "pre = pre' @ [x]" and len: "length pre' = i"
    by (metis length_Suc_conv_rev)
  have nth: "(pre @ run @ post) ! i = x" using pre len by (simp add: nth_append)
  have lt: "\<not> length (pre @ run @ post) \<le> i" using pre len by simp
  show ?case
  proof (cases "isTextNode x")
    case True
    let ?run = "x # run"
    have run': "\<forall>y\<in>set ?run. isTextNode y" using True Suc.prems(1) by simp
    have start: "(case trs of None \<Rightarrow> i | Some s \<Rightarrow> s) = i + length run"
      using Suc.prems(4) by (cases "run = []") auto
    show ?thesis
    proof (cases "i = 0")
      case i0: True
      then have p0: "pre' = []" using len by simp
      have "collapseTextRange ([] @ ?run @ post) (length ([]::node list)) (length run)
            = [] @ emitText (directTextValues ?run) @ post"
        by (rule collapseTextRange_run[OF run']) simp
      then have c: "collapseTextRange (x # run @ post) 0 (length run) = emitText (directTextValues ?run) @ post"
        by simp
      have st0: "(case trs of None \<Rightarrow> 0 | Some s \<Rightarrow> s) = length run"
        using start i0 by (cases trs) auto
      have "normalize_loop rec (Suc i) (pre @ run @ post) trs
            = collapseTextRange (x # run @ post) 0 (length run)"
        using True p0 pre by (simp add: Let_def i0 st0)
      also have "\<dots> = mergeTexts rec [] (pre @ run) @ post"
        using c mergeTexts_run[OF run', of rec "[]"] pre p0 by simp
      finally show ?thesis .
    next
      case False
      have "normalize_loop rec (Suc i) (pre @ run @ post) trs
            = normalize_loop rec i (pre' @ ?run @ post) (Some (i + length ?run - 1))"
        using True False lt nth pre by (simp add: Let_def start)
      also have "\<dots> = mergeTexts rec [] (pre' @ ?run) @ post"
        by (rule Suc.IH[OF run' len]) (use False in auto)
      finally show ?thesis using pre by simp
    qed
  next
    case False
    have upd: "(pre @ run @ post)[i := rec x] = pre' @ [rec x] @ run @ post"
      using pre len by (simp add: list_update_append)
    have m: "mergeTexts rec [] (pre @ run) = mergeTexts rec [] pre' @ rec x # emitText (directTextValues run)"
      using mergeTexts_split[OF False, of rec "[]" pre' run] mergeTexts_run[OF Suc.prems(1), of rec "[]"] pre
      by simp
    show ?thesis
    proof (cases "run = []")
      case True
      have "normalize_loop rec (Suc i) (pre @ run @ post) trs
            = normalize_loop rec i (pre' @ [] @ (rec x # post)) None"
        using False True lt nth upd Suc.prems(4) by (simp add: Let_def)
      also have "\<dots> = mergeTexts rec [] (pre' @ []) @ (rec x # post)"
        by (rule Suc.IH[OF _ len]) auto
      finally show ?thesis using m True by (simp add: emitText_def)
    next
      case nonempty: False
      have c: "collapseTextRange ((pre' @ [rec x]) @ run @ post) (length (pre' @ [rec x]))
                 (Suc i + length run - 1)
               = (pre' @ [rec x]) @ emitText (directTextValues run) @ post"
        by (rule collapseTextRange_run[OF Suc.prems(1)]) (use nonempty len in \<open>cases run; simp\<close>)
      have "normalize_loop rec (Suc i) (pre @ run @ post) trs
            = normalize_loop rec i (collapseTextRange ((pre' @ [rec x]) @ run @ post) (i + 1) (Suc i + length run - 1)) None"
        using False nonempty lt nth upd Suc.prems(4) by (simp add: Let_def)
      also have "\<dots> = normalize_loop rec i (pre' @ [] @ (rec x # emitText (directTextValues run) @ post)) None"
        using c len by simp
      also have "\<dots> = mergeTexts rec [] (pre' @ []) @ (rec x # emitText (directTextValues run) @ post)"
        by (rule Suc.IH[OF _ len]) auto
      finally show ?thesis using m by simp
    qed
  qed
qed

lemma normalize_loop_mergeTexts:
  "normalize_loop rec (length cs) cs None = mergeTexts rec [] cs"
  using normalize_loop_merge[of "[]" cs "length cs" None rec "[]"] by simp

lemma normalize_composite:
  "childNodes n = Some cs \<Longrightarrow> normalize_node n = setChildNodes n (normalizedChildren cs)"
  by (cases n) (simp_all add: normalize_node.simps normalizedChildren_def)

lemma normalize_leaf: "childNodes n = None \<Longrightarrow> normalize_node n = n"
  by (cases n) (simp_all add: normalize_node.simps)

lemma normalizedChildren_mergeTexts: "normalizedChildren cs = mergeTexts normalize_node [] cs"
  by (simp add: normalizedChildren_def normalize_loop_mergeTexts)

lemma isTextNode_normalize: "isTextNode (normalize_node n) = isTextNode n"
  by (cases n) (simp_all add: normalize_node.simps)

lemma mergeTexts_emitText: "mergeTexts r [] (emitText acc @ cs) = mergeTexts r acc cs"
  by (simp add: emitText_def)

lemma mergeTexts_twice:
  assumes "\<And>x. isTextNode (r x) = isTextNode x"
  shows "mergeTexts r' [] (mergeTexts r acc cs) = mergeTexts (\<lambda>x. r' (r x)) acc cs"
proof (induction cs arbitrary: acc)
  case Nil
  show ?case using mergeTexts_emitText[of r' acc "[]"] by simp
next
  case (Cons c cs)
  show ?case
  proof (cases "isTextNode c")
    case True
    then show ?thesis using Cons by (auto simp: isTextNode_iff)
  next
    case False
    then have nt: "\<not> isTextNode (r c)" using assms by simp
    have "mergeTexts r' [] (mergeTexts r acc (c # cs))
          = mergeTexts r' [] (emitText acc @ r c # mergeTexts r [] cs)"
      using False by (simp add: mergeTexts_nontext)
    also have "\<dots> = mergeTexts r' acc (r c # mergeTexts r [] cs)"
      by (rule mergeTexts_emitText)
    also have "\<dots> = emitText acc @ r' (r c) # mergeTexts r' [] (mergeTexts r [] cs)"
      using nt by (simp add: mergeTexts_nontext)
    also have "\<dots> = mergeTexts (\<lambda>x. r' (r x)) acc (c # cs)"
      using False Cons by (simp add: mergeTexts_nontext)
    finally show ?thesis .
  qed
qed

lemma mergeTexts_cong:
  "(\<And>x. x \<in> set cs \<Longrightarrow> f x = g x) \<Longrightarrow> mergeTexts f acc cs = mergeTexts g acc cs"
proof (induction cs arbitrary: acc)
  case Nil
  show ?case by simp
next
  case (Cons c cs)
  then show ?case by (cases "isTextNode c") (auto simp: isTextNode_iff mergeTexts_nontext)
qed

lemma normalizedChildren_idem:
  assumes "\<And>x. x \<in> set cs \<Longrightarrow> normalize_node (normalize_node x) = normalize_node x"
  shows "normalizedChildren (normalizedChildren cs) = normalizedChildren cs"
proof -
  have "normalizedChildren (normalizedChildren cs)
        = mergeTexts (\<lambda>x. normalize_node (normalize_node x)) [] cs"
    unfolding normalizedChildren_mergeTexts
    by (rule mergeTexts_twice) (rule isTextNode_normalize)
  also have "\<dots> = mergeTexts normalize_node [] cs"
    by (rule mergeTexts_cong) (rule assms)
  finally show ?thesis by (simp add: normalizedChildren_mergeTexts)
qed

text \<open>
  C5. \<open>normalize\<close> is idempotent: normalizing the result of \<open>normalize\<close> again
  leaves it unchanged, whatever the kind of the root node.
\<close>

theorem normalize_idempotent: "normalize_node (normalize_node n) = normalize_node n"
proof (induction n)
  case (Document cs)
  then show ?case
    by (simp add: normalize_composite[of _ cs] normalize_composite[of _ "normalizedChildren cs"]
        normalizedChildren_idem)
next
  case (DocumentFragment cs)
  then show ?case
    by (simp add: normalize_composite[of _ cs] normalize_composite[of _ "normalizedChildren cs"]
        normalizedChildren_idem)
next
  case (Element t as cs)
  then show ?case
    by (simp add: normalize_composite[of _ cs] normalize_composite[of _ "normalizedChildren cs"]
        normalizedChildren_idem)
qed (simp_all add: normalize_leaf)

lemma emitText_no_empty: "TextNode [] \<notin> set (emitText acc)"
  by (simp add: emitText_def)

lemma mergeTexts_no_empty:
  "(\<And>x. isTextNode (r x) = isTextNode x) \<Longrightarrow> TextNode [] \<notin> set (mergeTexts r acc cs)"
proof (induction cs arbitrary: acc)
  case Nil
  show ?case by (simp add: emitText_no_empty)
next
  case (Cons c cs)
  show ?case
  proof (cases "isTextNode c")
    case True
    then show ?thesis using Cons by (auto simp: isTextNode_iff)
  next
    case False
    then have "r c \<noteq> TextNode []" using Cons.prems[of c] by (cases "r c") auto
    then show ?thesis using False Cons by (auto simp: mergeTexts_nontext emitText_no_empty)
  qed
qed

lemma mergeTexts_length_nontext:
  "\<forall>x\<in>set cs. \<not> isTextNode x \<Longrightarrow> length (mergeTexts r [] cs) = length cs"
  by (induction cs) (auto simp: mergeTexts_nontext emitText_def)

lemma normalizedChildren_empty_run:
  assumes "\<forall>x\<in>set run. isTextNode x" "directTextValues run = []"
    "pre = [] \<or> \<not> isTextNode (last pre)"
  shows "normalizedChildren (pre @ run @ post) = normalizedChildren pre @ normalizedChildren post"
proof (cases "pre = []")
  case True
  then show ?thesis
    using mergeTexts_append_run[OF assms(1), of normalize_node "[]" post] assms(2)
    by (simp add: normalizedChildren_mergeTexts emitText_def)
next
  case False
  then obtain pre' x where pre: "pre = pre' @ [x]" by (metis rev_exhaust)
  then have nt: "\<not> isTextNode x" using assms(3) by simp
  have "mergeTexts normalize_node [] (pre' @ x # (run @ post))
        = mergeTexts normalize_node [] pre' @ normalize_node x # mergeTexts normalize_node [] (run @ post)"
    by (rule mergeTexts_split[OF nt])
  moreover have "mergeTexts normalize_node [] (run @ post) = mergeTexts normalize_node [] post"
    using mergeTexts_append_run[OF assms(1), of normalize_node "[]" post] assms(2) by simp
  moreover have "mergeTexts normalize_node [] (pre' @ x # [])
        = mergeTexts normalize_node [] pre' @ normalize_node x # mergeTexts normalize_node [] []"
    by (rule mergeTexts_split[OF nt])
  ultimately show ?thesis using pre by (simp add: normalizedChildren_mergeTexts emitText_def)
qed

text \<open>
  C10. In an element, document or fragment whose child list is \<open>pre @ run @ post\<close>,
  where \<open>run\<close> is a maximal non-empty run of text nodes whose values concatenate to
  the empty string, \<open>normalize\<close> leaves the normalized \<open>pre\<close> followed directly by
  the normalized \<open>post\<close>: the run is removed and nothing stands in its place. No
  empty text node occurs among the resulting children, and when no other child is a
  text node the child count drops by exactly the length of the run.
\<close>

theorem normalize_drops_empty_run:
  assumes "childNodes parent = Some (pre @ run @ post)"
    and "run \<noteq> []" and "\<forall>x\<in>set run. isTextNode x" and "directTextValues run = []"
    and "pre = [] \<or> \<not> isTextNode (last pre)"
    and "post = [] \<or> \<not> isTextNode (hd post)"
  shows "childNodes (normalize_node parent) = Some (normalizedChildren pre @ normalizedChildren post)
    \<and> TextNode [] \<notin> set (normalizedChildren (pre @ run @ post))
    \<and> ((\<forall>x\<in>set pre \<union> set post. \<not> isTextNode x) \<longrightarrow>
         length (normalizedChildren (pre @ run @ post)) + length run = length (pre @ run @ post))"
proof -
  have e: "normalizedChildren (pre @ run @ post) = normalizedChildren pre @ normalizedChildren post"
    by (rule normalizedChildren_empty_run[OF assms(3,4,5)])
  have 1: "childNodes (normalize_node parent) = Some (normalizedChildren pre @ normalizedChildren post)"
    using assms(1) e by (cases parent) (simp_all add: normalize_composite)
  have 2: "TextNode [] \<notin> set (normalizedChildren (pre @ run @ post))"
    unfolding normalizedChildren_mergeTexts
    by (rule mergeTexts_no_empty) (rule isTextNode_normalize)
  have 3: "length (normalizedChildren (pre @ run @ post)) + length run = length (pre @ run @ post)"
    if "\<forall>x\<in>set pre \<union> set post. \<not> isTextNode x"
    using that unfolding e
    by (simp add: normalizedChildren_mergeTexts mergeTexts_length_nontext)
  from 1 2 3 show ?thesis by blast
qed

theorem normalize_drops_empty_run_witness:
  "childNodes (normalize_node (Element ''p'' [] [CommentNode ''c'', TextNode [], TextNode [], Element ''b'' [] []]))
     = Some (normalizedChildren [CommentNode ''c''] @ normalizedChildren [Element ''b'' [] []])
   \<and> normalizedChildren [CommentNode ''c''] @ normalizedChildren [Element ''b'' [] []]
     = [CommentNode ''c'', Element ''b'' [] []]
   \<and> TextNode [] \<notin> set (normalizedChildren [CommentNode ''c'', TextNode [], TextNode [], Element ''b'' [] []])
   \<and> length (normalizedChildren [CommentNode ''c'', TextNode [], TextNode [], Element ''b'' [] []]) + 2 = 4"
  using normalize_drops_empty_run[of "Element ''p'' [] [CommentNode ''c'', TextNode [], TextNode [], Element ''b'' [] []]"
      "[CommentNode ''c'']" "[TextNode [], TextNode []]" "[Element ''b'' [] []]"]
  by (simp add: normalizedChildren_def normalize_node.simps)

subsection \<open>Depth-first iteration\<close>

lemma iappend_of_list: "iappend (of_list xs) (of_list ys) = of_list (xs @ ys)"
  by (induction xs) auto

lemma iappend_of_list_any: "iappend (of_list xs) b = foldr Yield xs b"
  by (induction xs) auto

lemma ibind_of_list:
  "(\<And>x. x \<in> set xs \<Longrightarrow> f x = of_list (g x)) \<Longrightarrow>
   ibind (of_list xs) f = of_list (concat (map g xs))"
  by (induction xs) (auto simp: iappend_of_list)

lemma levels_le_foldr_max: "t \<in> set ts \<Longrightarrow> levels t \<le> foldr max (map levels ts) 0"
  by (induction ts) (auto simp: max_def)

lemma length_listing: "length (listing t) = node_count t"
proof (induction t)
  case (Tree n ts)
  have "map (\<lambda>t. length (listing t)) ts = map node_count ts" using Tree by simp
  then have "sum_list (map (\<lambda>t. length (listing t)) ts) = sum_list (map node_count ts)"
    by (rule arg_cong)
  then show ?case by (simp add: length_concat comp_def)
qed

lemma set_listing: "set (listing t) = nodes t"
  by (induction t) auto

lemma depthFirst_listing:
  "unfolds gc t \<Longrightarrow> levels t \<le> fuel \<Longrightarrow> depthFirst fuel gc (root t) = of_list (listing t)"
proof (induction t arbitrary: fuel)
  case (Tree n ts)
  from Tree.prems(2) obtain f where fuel: "fuel = Suc f" and f: "foldr max (map levels ts) 0 \<le> f"
    by (cases fuel) auto
  have sub: "depthFirst f gc (root t) = of_list (listing t)" if "t \<in> set ts" for t
  proof (rule Tree.IH[OF that])
    show "unfolds gc t" using Tree.prems(1) that by (simp add: list_all_iff)
    show "levels t \<le> f" using levels_le_foldr_max[OF that] f by simp
  qed
  show ?case
  proof (cases "gc n")
    case None
    then show ?thesis using Tree.prems(1) fuel by simp
  next
    case (Some cs)
    then have cs: "cs = map root ts" using Tree.prems(1) by simp
    have "ibind (of_list (map root ts)) (depthFirst f gc) = of_list (concat (map listing ts))"
      using sub by (induction ts) (auto simp: iappend_of_list)
    then show ?thesis using Some cs fuel by simp
  qed
qed

text \<open>
  C8. For every finite tree \<open>t\<close> that a child accessor spans from a root, and a
  depth bound that covers the levels of \<open>t\<close>, \<open>depthFirst\<close> on the root yields
  exactly the preorder listing of \<open>t\<close> and returns: the root comes first, the
  yielded nodes are the nodes of \<open>t\<close>, their number is the node count of \<open>t\<close>, and
  when no node object occurs twice in \<open>t\<close> every node is yielded exactly once.
\<close>

theorem depthFirst_preorder:
  assumes "unfolds getChildNodes t" and "levels t \<le> fuel"
  shows "depthFirst fuel getChildNodes (root t) = of_list (listing t)
    \<and> hd (listing t) = root t
    \<and> set (listing t) = nodes t
    \<and> length (listing t) = node_count t
    \<and> (card (nodes t) = node_count t \<longrightarrow> distinct (listing t))"
proof -
  have "hd (listing t) = root t" by (cases t) simp
  moreover have "distinct (listing t)" if "card (nodes t) = node_count t"
    using that by (simp add: card_distinct set_listing length_listing)
  ultimately show ?thesis
    using depthFirst_listing[OF assms] set_listing[of t] length_listing[of t] by blast
qed

theorem depthFirst_preorder_witness:
  "depthFirst 3 gc_example 0 = of_list [0, 1, 3, 2]
   \<and> hd [0, 1, 3, 2] = (0::nat) \<and> set [0, 1, 3, 2] = {0, 1, 2, 3::nat}
   \<and> length [0, 1, 3, 2::nat] = 4 \<and> distinct [0, 1, 3, 2::nat]"
  using depthFirst_preorder[of gc_example "Tree 0 [Tree 1 [Tree 3 []], Tree 2 []]" 3]
  by (simp add: gc_example_def insert_commute)

subsection \<open>Inconsistent back-references\<close>

lemma indexOf_absent: "x \<notin> set xs \<Longrightarrow> indexOf xs x = - 1"
  by (induction xs) (auto simp: Let_def)

lemma indexOf_present:
  "x \<in> set xs \<Longrightarrow> 0 \<le> indexOf xs x \<and> nat (indexOf xs x) < length xs \<and> xs ! nat (indexOf xs x) = x"
  by (induction xs) (auto simp: Let_def nat_add_distrib)

lemma indexOf_ge: "- 1 \<le> indexOf xs x"
  by (induction xs) (auto simp: Let_def)

lemma children_simps:
  "o_childNodes (h p) = None \<Longrightarrow> children h p = []"
  "o_childNodes (h p) = Some cs \<Longrightarrow> children h p = cs"
  by (simp_all add: children_def)

text \<open>
  C6 (as amended). When \<open>parentNode\<close> of a node is set but the parent's \<open>childNodes\<close>
  is missing or does not hold the node, \<open>previousSiblings\<close> throws before it yields
  anything, and the exception passes through \<open>iteratePrior\<close> to the callers
  \<open>nodeWalkPrior\<close> and \<open>nodeWalkAllPrior\<close>.
\<close>

theorem previousSiblings_raises:
  assumes "o_parentNode (h node) = Some parent" and "node \<notin> set (children h parent)"
  shows "previousSiblings h node =
           Throw (if o_childNodes (h parent) = None then ParentHasNoChildren
                  else ParentDoesNotKnowChild)
    \<and> (\<exists>e. iteratePrior (Suc fuel) h node = Throw e
           \<and> nodeWalkPrior (Suc fuel) h node predicate = Raise e
           \<and> nodeWalkAllPrior (Suc fuel) h node predicate = Raise e)"
proof -
  let ?e = "if o_childNodes (h parent) = None then ParentHasNoChildren else ParentDoesNotKnowChild"
  have 1: "previousSiblings h node = Throw ?e"
  proof (cases "o_childNodes (h parent)")
    case None
    then show ?thesis using assms(1) by (simp add: previousSiblings_def)
  next
    case (Some cs)
    then have "indexOf cs node = - 1" using assms(2) by (simp add: children_def indexOf_absent)
    then show ?thesis using assms(1) Some by (simp add: previousSiblings_def)
  qed
  then have 2: "iteratePrior (Suc fuel) h node = Throw ?e" by simp
  then have "nodeWalkPrior (Suc fuel) h node predicate = Raise ?e"
    "nodeWalkAllPrior (Suc fuel) h node predicate = Raise ?e"
    by (simp_all add: nodeWalkPrior_def nodeWalkAllPrior_def iteratePriorIncludingNode_def)
  with 1 2 show ?thesis by blast
qed

theorem previousSiblings_raises_witness:
  "previousSiblings h_inconsistent 1 = Throw ParentDoesNotKnowChild
   \<and> nodeWalkPrior 1 h_inconsistent 1 (\<lambda>n. True) = Raise ParentDoesNotKnowChild"
  using previousSiblings_raises[of h_inconsistent 1 0 0 "\<lambda>n. True"]
  by (simp add: h_inconsistent_def mk_obj_def children_def nodeWalkPrior_def previousSiblings_def)

text \<open>
  The mutation functions of dom5.ts raise nothing on such a node: \<open>indexOf\<close> gives
  -1, with which \<open>remove\<close> splices the last child of the parent out,
  \<open>insertBefore\<close> inserts before the last child, and \<open>replace\<close> puts the new node
  in the place of the last child.
\<close>

theorem remove_inconsistent_counterexample:
  "o_parentNode (h_inconsistent 1) = Some 0
   \<and> 1 \<notin> set (children h_inconsistent 0)
   \<and> o_childNodes (h_inconsistent 0) = Some [2]
   \<and> \<not> isl (remove h_inconsistent 1)
   \<and> o_childNodes (projr (remove h_inconsistent 1) 0) = Some []
   \<and> \<not> isl (insertBefore h_inconsistent 0 1 (Some 3))
   \<and> o_childNodes (projr (insertBefore h_inconsistent 0 1 (Some 3)) 0) = Some [3, 2]
   \<and> \<not> isl (replace h_inconsistent 1 (Some 3))
   \<and> o_childNodes (projr (replace h_inconsistent 1 (Some 3)) 0) = Some [3]"
  by (simp add: h_inconsistent_def mk_obj_def children_def remove_def splice_array_def
      insertBefore_def replace_def insertNode_def newNodes_of_def nth_opt_def
      isDocumentFragment_obj_def set_childNodes_def set_parentNode_def Let_def)

subsection \<open>Inserting a fragment\<close>

lemma set_parentNode_simps [simp]:
  "o_childNodes (set_parentNode h n p x) = o_childNodes (h x)"
  "o_parentNode (set_parentNode h n p x) = (if x = n then p else o_parentNode (h x))"
  "o_nodeName (set_parentNode h n p x) = o_nodeName (h x)"
  by (simp_all add: set_parentNode_def)

lemma set_childNodes_simps [simp]:
  "o_childNodes (set_childNodes h n cs x) = (if x = n then Some cs else o_childNodes (h x))"
  "o_parentNode (set_childNodes h n cs x) = o_parentNode (h x)"
  "o_nodeName (set_childNodes h n cs x) = o_nodeName (h x)"
  by (simp_all add: set_childNodes_def)

lemma fold_set_parentNode [simp]:
  "o_childNodes (fold (\<lambda>n hh. set_parentNode hh n p) ns h x) = o_childNodes (h x)"
  "o_parentNode (fold (\<lambda>n hh. set_parentNode hh n p) ns h x)
     = (if x \<in> set ns then p else o_parentNode (h x))"
  "o_nodeName (fold (\<lambda>n hh. set_parentNode hh n p) ns h x) = o_nodeName (h x)"
  by (induction ns arbitrary: h) auto

lemma splice_insert:
  "i \<le> length xs \<Longrightarrow> splice_array xs (int i) 0 items = take i xs @ items @ drop i xs"
  by (simp add: splice_array_def Let_def min_def)

lemma insertNode_fragment:
  assumes "isDocumentFragment_obj (h f)" and "o_childNodes (h f) = Some fc"
    and "o_childNodes (h p) = Some pc" and "f \<noteq> p"
  shows "insertNode h p index (Some f) False =
    Inr (fold (\<lambda>n hh. set_parentNode hh n (Some p)) fc
          (set_childNodes (set_childNodes h f []) p (splice_array pc index 0 fc)))"
  using assms by (simp add: insertNode_def newNodes_of_def Let_def)

text \<open>
  C2. For a parent \<open>p\<close> with child list \<open>pc\<close>, an index \<open>i \<le> length pc\<close> and a
  fragment \<open>f\<close>, a node other than \<open>p\<close>, with child list \<open>fc\<close>,
  \<open>insertNode\<close> returns with the children of \<open>f\<close> spliced into the children of
  \<open>p\<close> at \<open>i\<close>, in order and in place of the fragment: the child count of \<open>p\<close>
  grows by the length of \<open>fc\<close>, every spliced child has \<open>p\<close> as its parent, and
  \<open>f\<close> is left without children. \<open>append\<close> is this insertion at the end, and
  \<open>insertBefore\<close> at the index of a reference child.
\<close>

theorem insertNode_fragment_splices:
  assumes "isDocumentFragment_obj (h f)" and "o_childNodes (h f) = Some fc"
    and "o_childNodes (h p) = Some pc" and "f \<noteq> p" and "i \<le> length pc"
  shows "\<exists>h'. insertNode h p (int i) (Some f) False = Inr h'
      \<and> o_childNodes (h' p) = Some (take i pc @ fc @ drop i pc)
      \<and> length (children h' p) = length pc + length fc
      \<and> (\<forall>c\<in>set fc. o_parentNode (h' c) = Some p)
      \<and> o_childNodes (h' f) = Some []
      \<and> (i = length pc \<longrightarrow> append_node h p (Some f) = Inr h')
      \<and> (\<forall>r. r \<in> set pc \<and> indexOf pc r = int i \<longrightarrow> insertBefore h p r (Some f) = Inr h')"
proof -
  let ?h' = "fold (\<lambda>n hh. set_parentNode hh n (Some p)) fc
          (set_childNodes (set_childNodes h f []) p (splice_array pc (int i) 0 fc))"
  have ins: "insertNode h p (int i) (Some f) False = Inr ?h'"
    by (rule insertNode_fragment[OF assms(1-4)])
  have kids: "o_childNodes (?h' p) = Some (take i pc @ fc @ drop i pc)"
    using assms(5) by (simp add: splice_insert)
  have len: "length (children ?h' p) = length pc + length fc"
    using assms(5) by (simp add: children_def splice_insert)
  have par: "\<forall>c\<in>set fc. o_parentNode (?h' c) = Some p" by simp
  have frag: "o_childNodes (?h' f) = Some []" using assms(4) by simp
  have app: "append_node h p (Some f) = Inr ?h'" if "i = length pc"
    using that assms(3) ins by (simp add: append_node_def)
  have bef: "insertBefore h p r (Some f) = Inr ?h'" if "indexOf pc r = int i" for r
    using that assms(3) ins by (simp add: insertBefore_def)
  show ?thesis using ins kids len par frag app bef by blast
qed

theorem insertNode_fragment_splices_witness:
  "\<exists>h'. insertNode h_two 0 1 (Some 5) False = Inr h'
      \<and> o_childNodes (h' 0) = Some [1, 6, 7, 2]
      \<and> length (children h' 0) = 4
      \<and> o_parentNode (h' 6) = Some 0 \<and> o_parentNode (h' 7) = Some 0
      \<and> o_childNodes (h' 5) = Some []
      \<and> insertBefore h_two 0 2 (Some 5) = Inr h'"
proof -
  have hyps: "isDocumentFragment_obj (h_two 5)" "o_childNodes (h_two 5) = Some [6, 7]"
    "o_childNodes (h_two 0) = Some [1, 2]" "(5::nat) \<noteq> 0" "(1::nat) \<le> length [1::nat, 2]"
    by (simp_all add: h_two_def mk_obj_def isDocumentFragment_obj_def)
  from insertNode_fragment_splices[OF hyps] obtain h' where
    h': "insertNode h_two 0 (int 1) (Some 5) False = Inr h'"
      "o_childNodes (h' 0) = Some (take 1 [1, 2] @ [6, 7] @ drop 1 [1, 2])"
      "length (children h' 0) = length [1::nat, 2] + length [6::nat, 7]"
      "\<forall>c\<in>set [6, 7]. o_parentNode (h' c) = Some 0"
      "o_childNodes (h' 5) = Some []"
      "\<forall>r. r \<in> set [1, 2] \<and> indexOf [1, 2] r = int 1 \<longrightarrow> insertBefore h_two 0 r (Some 5) = Inr h'"
    by blast
  have "insertBefore h_two 0 2 (Some 5) = Inr h'"
    using h'(6) by (simp add: Let_def)
  then show ?thesis using h'(1-5) by auto
qed

subsection \<open>The single-owner invariant\<close>

lemma children_set_parentNode [simp]: "children (set_parentNode h n p) q = children h q"
  by (simp add: children_def)

lemma children_set_childNodes [simp]:
  "children (set_childNodes h n cs) q = (if q = n then cs else children h q)"
  by (simp add: children_def)

lemma children_fold_set_parentNode [simp]:
  "children (fold (\<lambda>n hh. set_parentNode hh n p) ns h) q = children h q"
  by (simp add: children_def)

lemma splice_array_form:
  "\<exists>s d. s \<le> length xs \<and> splice_array xs i dc items = take s xs @ items @ drop (s + d) xs"
proof -
  define s where "s = (if i < 0 then nat (max (int (length xs) + i) 0) else min (nat i) (length xs))"
  define d where "d = min dc (length xs - s)"
  have "s \<le> length xs" by (auto simp: s_def)
  moreover have "splice_array xs i dc items = take s xs @ items @ drop (s + d) xs"
    by (simp add: splice_array_def Let_def s_def d_def)
  ultimately show ?thesis by blast
qed

lemma splice_array_at:
  "0 \<le> i \<Longrightarrow> nat i < length xs \<Longrightarrow>
   splice_array xs i 1 items = take (nat i) xs @ items @ drop (Suc (nat i)) xs"
  by (simp add: splice_array_def Let_def min_def)

lemma set_splice_array_subset: "set (splice_array xs i dc items) \<subseteq> set xs \<union> set items"
proof -
  obtain s d where "splice_array xs i dc items = take s xs @ items @ drop (s + d) xs"
    using splice_array_form by blast
  then show ?thesis by (auto dest: in_set_takeD in_set_dropD)
qed

lemma set_items_splice_array: "set items \<subseteq> set (splice_array xs i dc items)"
proof -
  obtain s d where "splice_array xs i dc items = take s xs @ items @ drop (s + d) xs"
    using splice_array_form by blast
  then show ?thesis by auto
qed

lemma distinct_splice_array:
  assumes "distinct xs" "distinct items" "set xs \<inter> set items = {}"
  shows "distinct (splice_array xs i dc items)"
proof -
  obtain s d where e: "splice_array xs i dc items = take s xs @ items @ drop (s + d) xs"
    using splice_array_form by blast
  have "set (take s xs) \<inter> set (drop (s + d) xs) = {}"
    using assms(1) by (simp add: set_take_disj_set_drop_if_distinct)
  moreover have "set (take s xs) \<subseteq> set xs" "set (drop (s + d) xs) \<subseteq> set xs"
    by (auto dest: in_set_takeD in_set_dropD)
  ultimately show ?thesis using assms unfolding e by auto
qed

lemma nth_not_in_rest:
  assumes "distinct xs" "k < length xs"
  shows "xs ! k \<notin> set (take k xs) \<union> set (drop (Suc k) xs)"
proof -
  have "xs = take k xs @ xs ! k # drop (Suc k) xs" using assms(2) by (rule id_take_nth_drop)
  then have "distinct (take k xs @ xs ! k # drop (Suc k) xs)" using assms(1) by simp
  then show ?thesis by auto
qed

lemma splice_array_removes:
  assumes "distinct xs" "0 \<le> i" "nat i < length xs" "xs ! nat i \<notin> set items"
  shows "xs ! nat i \<notin> set (splice_array xs i 1 items)"
  unfolding splice_array_at[OF assms(2,3)]
  using nth_not_in_rest[OF assms(1,3)] assms(4) by simp

lemma single_ownerD:
  "single_owner h \<Longrightarrow> c \<in> set (children h p) \<Longrightarrow> o_parentNode (h c) = Some p"
  "single_owner h \<Longrightarrow> distinct (children h p)"
  by (auto simp: single_owner_def)

lemma remove_single_owner:
  assumes "single_owner h" and "remove h n = Inr h'"
  shows "single_owner h' \<and> o_parentNode (h' n) = None \<and> (\<forall>q. n \<notin> set (children h' q))"
proof (cases "o_parentNode (h n)")
  case None
  then have h': "h' = set_parentNode h n None" using assms(2) by (simp add: remove_def)
  have notin: "n \<notin> set (children h q)" for q
    using single_ownerD(1)[OF assms(1), of n q] None by auto
  show ?thesis
    unfolding h' using assms(1) notin by (auto simp: single_owner_def)
next
  case (Some parent)
  then obtain cs where cs: "o_childNodes (h parent) = Some cs"
    and h': "h' = set_parentNode (set_childNodes h parent (splice_array cs (indexOf cs n) 1 [])) n None"
    using assms(2) by (auto simp: remove_def Let_def split: option.splits)
  have kids: "children h parent = cs" using cs by (simp add: children_def)
  have dcs: "distinct cs" using single_ownerD(2)[OF assms(1), of parent] kids by simp
  have notin_other: "n \<notin> set (children h q)" if "q \<noteq> parent" for q
    using single_ownerD(1)[OF assms(1), of n q] Some that by auto
  have notin_sp: "n \<notin> set (splice_array cs (indexOf cs n) 1 [])"
  proof (cases "n \<in> set cs")
    case True
    from indexOf_present[OF True] splice_array_removes[OF dcs, of "indexOf cs n" "[]"]
    show ?thesis by simp
  next
    case False
    then show ?thesis using set_splice_array_subset[of cs "indexOf cs n" 1 "[]"] by auto
  qed
  have sub: "set (splice_array cs (indexOf cs n) 1 []) \<subseteq> set cs"
    using set_splice_array_subset[of cs "indexOf cs n" 1 "[]"] by simp
  have dsp: "distinct (splice_array cs (indexOf cs n) 1 [])"
    by (rule distinct_splice_array[OF dcs]) simp_all
  have notin: "n \<notin> set (children h' q)" for q
    unfolding h' using notin_other notin_sp by simp
  have so: "single_owner h'"
    unfolding single_owner_def
  proof (intro conjI allI impI)
    fix p c assume c: "c \<in> set (children h' p)"
    then have "c \<noteq> n" using notin by auto
    moreover have "c \<in> set (children h p)"
      using c sub kids unfolding h' by (auto split: if_splits)
    ultimately show "o_parentNode (h' c) = Some p"
      unfolding h' using single_ownerD(1)[OF assms(1)] by simp
  next
    fix p show "distinct (children h' p)"
      unfolding h' using dsp single_ownerD(2)[OF assms(1)] by simp
  qed
  show ?thesis using so notin unfolding h' by simp
qed

lemma newNodes_of_detached:
  assumes "single_owner h" and "newNodes_of h nn = Inr (ns, h1)"
  shows "single_owner h1 \<and> distinct ns \<and> (\<forall>c\<in>set ns. \<forall>q. c \<notin> set (children h1 q))
    \<and> (\<forall>m. nn = Some m \<and> \<not> isDocumentFragment_obj (h m) \<longrightarrow> ns = [m])"
proof (cases nn)
  case None
  then show ?thesis using assms by (simp add: newNodes_of_def)
next
  case (Some n)
  show ?thesis
  proof (cases "isDocumentFragment_obj (h n)")
    case True
    then have fc: "o_childNodes (h n) = Some ns" and h1: "h1 = set_childNodes h n []"
      using assms(2) Some by (auto simp: newNodes_of_def split: option.splits)
    have kids: "children h n = ns" using fc by (simp add: children_def)
    have so: "single_owner h1"
      unfolding h1 using assms(1) by (auto simp: single_owner_def)
    have det: "c \<notin> set (children h1 q)" if "c \<in> set ns" for c q
    proof
      assume "c \<in> set (children h1 q)"
      then have q: "q \<noteq> n" and "c \<in> set (children h q)" unfolding h1 by (auto split: if_splits)
      then have "o_parentNode (h c) = Some q" using single_ownerD(1)[OF assms(1)] by simp
      moreover have "o_parentNode (h c) = Some n"
        using single_ownerD(1)[OF assms(1), of c n] that kids by simp
      ultimately show False using q by simp
    qed
    show ?thesis using so det single_ownerD(2)[OF assms(1), of n] kids True Some by auto
  next
    case False
    then obtain hr where r: "remove h n = Inr hr" and ns: "ns = [n]" and h1: "h1 = hr"
      using assms(2) Some by (auto simp: newNodes_of_def split: sum.splits)
    show ?thesis using remove_single_owner[OF assms(1) r] ns h1 Some by simp
  qed
qed

lemma insert_tail_single_owner:
  assumes so: "single_owner h1" and dn: "distinct ns"
    and det: "\<forall>c\<in>set ns. \<forall>q. c \<notin> set (children h1 q)"
    and cs: "o_childNodes (h1 p) = Some cs"
    and h3: "h3 = fold (\<lambda>n hh. set_parentNode hh n (Some p)) ns
                   (set_childNodes h1 p (splice_array cs i (if rep then 1 else 0) ns))"
    and hf: "hf = (case (if rep then nth_opt cs i else None) of
                     Some r \<Rightarrow> set_parentNode h3 r None | None \<Rightarrow> h3)"
  shows "single_owner hf \<and> set ns \<subseteq> set (children hf p)"
proof -
  let ?sp = "splice_array cs i (if rep then 1 else 0) ns"
  have kids1: "children h1 p = cs" using cs by (simp add: children_def)
  have dcs: "distinct cs" using single_ownerD(2)[OF so, of p] kids1 by simp
  have disj: "set cs \<inter> set ns = {}" using det kids1 by auto
  have kids3: "children h3 q = (if q = p then ?sp else children h1 q)" for q
    unfolding h3 by simp
  have par3: "o_parentNode (h3 x) = (if x \<in> set ns then Some p else o_parentNode (h1 x))" for x
    unfolding h3 by simp
  have kidsf: "children hf q = children h3 q" for q
    unfolding hf by (simp split: option.splits)
  have dsp: "distinct ?sp" by (rule distinct_splice_array[OF dcs dn disj])
  have own3: "o_parentNode (h3 c) = Some q" if "c \<in> set (children h3 q)" for c q
  proof (cases "q = p")
    case True
    then have "c \<in> set cs \<union> set ns" using that set_splice_array_subset[of cs i _ ns] kids3 by auto
    then show ?thesis
      using single_ownerD(1)[OF so, of c p] kids1 True by (auto simp: par3)
  next
    case False
    then have c: "c \<in> set (children h1 q)" using that kids3 by simp
    then have "c \<notin> set ns" using det by auto
    then show ?thesis using single_ownerD(1)[OF so c] by (simp add: par3)
  qed
  have removed: "r \<notin> set (children h3 q)"
    if "rep" "nth_opt cs i = Some r" for r q
  proof -
    from that(2) have i: "0 \<le> i" "nat i < length cs" and r: "r = cs ! nat i"
      by (auto simp: nth_opt_def split: if_splits)
    have rcs: "r \<in> set cs" using i r by simp
    then have rns: "r \<notin> set ns" using disj by auto
    show ?thesis
    proof (cases "q = p")
      case True
      then show ?thesis
        using splice_array_removes[OF dcs i] rns r that(1) kids3 by simp
    next
      case False
      have "o_parentNode (h1 r) = Some p" using single_ownerD(1)[OF so, of r p] rcs kids1 by simp
      then show ?thesis using single_ownerD(1)[OF so, of r q] False kids3 by auto
    qed
  qed
  have ownf: "o_parentNode (hf c) = Some q" if "c \<in> set (children hf q)" for c q
  proof (cases "rep \<and> nth_opt cs i \<noteq> None")
    case True
    then obtain r where r: "nth_opt cs i = Some r" by auto
    have "c \<noteq> r" using removed[OF _ r, of q] True that kidsf by auto
    then show ?thesis using own3[of c q] that kidsf r True unfolding hf by simp
  next
    case False
    then have "hf = h3" unfolding hf by (auto split: option.splits)
    then show ?thesis using own3 that by simp
  qed
  have "single_owner hf"
    unfolding single_owner_def using ownf dsp single_ownerD(2)[OF so] by (auto simp: kidsf kids3)
  moreover have "set ns \<subseteq> set (children hf p)"
    using set_items_splice_array[of ns cs i] by (simp add: kidsf kids3)
  ultimately show ?thesis by simp
qed

lemma insertNode_single_owner:
  assumes "single_owner h" and "insertNode h p i nn rep = Inr h'"
  shows "single_owner h' \<and>
    (\<forall>m. nn = Some m \<and> \<not> isDocumentFragment_obj (h m) \<longrightarrow> m \<in> set (children h' p))"
proof -
  from assms(2) obtain ns h1 where prep: "newNodes_of h nn = Inr (ns, h1)"
    by (auto simp: insertNode_def split: if_splits sum.splits)
  from assms(2) prep obtain cs where cs: "o_childNodes (h1 p) = Some cs"
    by (auto simp: insertNode_def split: if_splits option.splits)
  define h3 where "h3 = fold (\<lambda>n hh. set_parentNode hh n (Some p)) ns
                   (set_childNodes h1 p (splice_array cs i (if rep then 1 else 0) ns))"
  have hf: "h' = (case (if rep then nth_opt cs i else None) of
                     Some r \<Rightarrow> set_parentNode h3 r None | None \<Rightarrow> h3)"
    using assms(2) prep cs unfolding h3_def
    by (auto simp: insertNode_def Let_def split: if_splits option.splits)
  note d = newNodes_of_detached[OF assms(1) prep]
  have t: "single_owner h' \<and> set ns \<subseteq> set (children h' p)"
    by (rule insert_tail_single_owner[OF _ _ _ cs h3_def hf]) (use d in auto)
  show ?thesis using t d by auto
qed

lemma owned_byI:
  "single_owner h \<Longrightarrow> n \<in> set (children h p) \<Longrightarrow> owned_by h n p"
  unfolding owned_by_def using single_ownerD(1) by (metis option.inject)

lemma isDocumentFragment_obj_remove:
  "remove h n = Inr h1 \<Longrightarrow> isDocumentFragment_obj (h1 m) = isDocumentFragment_obj (h m)"
  by (auto simp: remove_def isDocumentFragment_obj_def Let_def split: option.splits)

text \<open>
  C3. In a store where every node occurs among the children of at most one node,
  once, with that node as its \<open>parentNode\<close>, every mutation operation that returns
  leaves such a store: \<open>remove\<close> (after which the node has no parent and occurs
  under no node), \<open>insertNode\<close>, \<open>append\<close>, \<open>insertBefore\<close> and \<open>replace\<close>. A
  node that is not a fragment is detached by \<open>remove\<close> first, so after its
  insertion it occurs among the children of the new parent only, with the new parent
  as its \<open>parentNode\<close>; the same holds after \<open>remove\<close> followed by \<open>append\<close>.
\<close>

theorem mutation_keeps_single_owner:
  assumes "single_owner h"
  shows "(\<forall>h'. remove h n = Inr h' \<longrightarrow>
            single_owner h' \<and> o_parentNode (h' n) = None \<and> (\<forall>q. n \<notin> set (children h' q)))
    \<and> (\<forall>h'. insertNode h p i newNode rep = Inr h' \<longrightarrow> single_owner h')
    \<and> (\<forall>h'. append_node h p newNode = Inr h' \<longrightarrow> single_owner h')
    \<and> (\<forall>h'. insertBefore h p oldNode newNode = Inr h' \<longrightarrow> single_owner h')
    \<and> (\<forall>h'. replace h oldNode newNode = Inr h' \<longrightarrow> single_owner h')
    \<and> (\<not> isDocumentFragment_obj (h n) \<longrightarrow>
          (\<forall>h'. append_node h p (Some n) = Inr h' \<longrightarrow> owned_by h' n p)
        \<and> (\<forall>h'. insertBefore h p oldNode (Some n) = Inr h' \<longrightarrow> owned_by h' n p)
        \<and> (\<forall>h'. replace h oldNode (Some n) = Inr h' \<longrightarrow>
              (\<exists>q. o_parentNode (h oldNode) = Some q \<and> owned_by h' n q))
        \<and> (\<forall>h1 h2. remove h n = Inr h1 \<and> append_node h1 p (Some n) = Inr h2 \<longrightarrow>
              single_owner h2 \<and> owned_by h2 n p))"
proof -
  note ins = insertNode_single_owner
  have 1: "single_owner h' \<and> o_parentNode (h' n) = None \<and> (\<forall>q. n \<notin> set (children h' q))"
    if "remove h n = Inr h'" for h'
    using remove_single_owner[OF assms that] .
  have 2: "single_owner h'" if "insertNode h p i newNode rep = Inr h'" for h'
    using ins[OF assms that] by simp
  have 3: "single_owner h' \<and> (\<forall>m. nn = Some m \<and> \<not> isDocumentFragment_obj (h0 m) \<longrightarrow> owned_by h' m p)"
    if "single_owner h0" "append_node h0 p nn = Inr h'" for h0 h' nn
  proof -
    from that(2) obtain j where "insertNode h0 p j nn False = Inr h'"
      by (auto simp: append_node_def split: option.splits)
    from ins[OF that(1) this] show ?thesis by (auto intro: owned_byI)
  qed
  have 4: "single_owner h' \<and> (\<forall>m. nn = Some m \<and> \<not> isDocumentFragment_obj (h m) \<longrightarrow> owned_by h' m p)"
    if "insertBefore h p oldNode nn = Inr h'" for h' nn
  proof -
    from that obtain j where "insertNode h p j nn False = Inr h'"
      by (auto simp: insertBefore_def split: option.splits)
    from ins[OF assms this] show ?thesis by (auto intro: owned_byI)
  qed
  have 5: "single_owner h' \<and> (\<forall>m. nn = Some m \<and> \<not> isDocumentFragment_obj (h m) \<longrightarrow>
             (\<exists>q. o_parentNode (h oldNode) = Some q \<and> owned_by h' m q))"
    if "replace h oldNode nn = Inr h'" for h' nn
  proof -
    from that obtain q j where "o_parentNode (h oldNode) = Some q" "insertNode h q j nn True = Inr h'"
      by (auto simp: replace_def split: option.splits)
    from ins[OF assms this(2)] this(1) show ?thesis by (auto intro: owned_byI)
  qed
  have 6: "single_owner h2 \<and> owned_by h2 n p"
    if "\<not> isDocumentFragment_obj (h n)" "remove h n = Inr h1" "append_node h1 p (Some n) = Inr h2"
    for h1 h2
    using 3[of h1 "Some n" h2] 1[OF that(2)] that isDocumentFragment_obj_remove[OF that(2), of n]
    by simp
  have c1: "\<forall>h'. remove h n = Inr h' \<longrightarrow>
            single_owner h' \<and> o_parentNode (h' n) = None \<and> (\<forall>q. n \<notin> set (children h' q))"
    using 1 by blast
  have c2: "\<forall>h'. insertNode h p i newNode rep = Inr h' \<longrightarrow> single_owner h'"
    using 2 by blast
  have c3: "\<forall>h'. append_node h p newNode = Inr h' \<longrightarrow> single_owner h'"
    using 3[OF assms] by blast
  have c4: "\<forall>h'. insertBefore h p oldNode newNode = Inr h' \<longrightarrow> single_owner h'"
    using 4 by blast
  have c5: "\<forall>h'. replace h oldNode newNode = Inr h' \<longrightarrow> single_owner h'"
    using 5 by blast
  have c6: "\<not> isDocumentFragment_obj (h n) \<longrightarrow>
          (\<forall>h'. append_node h p (Some n) = Inr h' \<longrightarrow> owned_by h' n p)
        \<and> (\<forall>h'. insertBefore h p oldNode (Some n) = Inr h' \<longrightarrow> owned_by h' n p)
        \<and> (\<forall>h'. replace h oldNode (Some n) = Inr h' \<longrightarrow>
              (\<exists>q. o_parentNode (h oldNode) = Some q \<and> owned_by h' n q))
        \<and> (\<forall>h1 h2. remove h n = Inr h1 \<and> append_node h1 p (Some n) = Inr h2 \<longrightarrow>
              single_owner h2 \<and> owned_by h2 n p)"
  proof (intro impI conjI allI)
    fix h' assume nf: "\<not> isDocumentFragment_obj (h n)" and a: "append_node h p (Some n) = Inr h'"
    show "owned_by h' n p" using 3[OF assms a] nf by simp
  next
    fix h' assume nf: "\<not> isDocumentFragment_obj (h n)" and a: "insertBefore h p oldNode (Some n) = Inr h'"
    show "owned_by h' n p" using 4[OF a] nf by simp
  next
    fix h' assume nf: "\<not> isDocumentFragment_obj (h n)" and a: "replace h oldNode (Some n) = Inr h'"
    show "\<exists>q. o_parentNode (h oldNode) = Some q \<and> owned_by h' n q" using 5[OF a] nf by simp
  next
    fix h1 h2 assume nf: "\<not> isDocumentFragment_obj (h n)"
      and a: "remove h n = Inr h1 \<and> append_node h1 p (Some n) = Inr h2"
    show "single_owner h2" "owned_by h2 n p" using 6[OF nf] a by simp_all
  qed
  from c1 c2 c3 c4 c5 c6 show ?thesis by (intro conjI)
qed

lemma single_owner_h_two: "single_owner h_two"
  by (auto simp: single_owner_def children_def h_two_def mk_obj_def split: if_splits)

theorem mutation_keeps_single_owner_witness:
  "single_owner h_two \<and> \<not> isDocumentFragment_obj (h_two 1) \<and> owned_by h_two 1 0
   \<and> (\<exists>h'. append_node h_two 5 (Some 1) = Inr h' \<and> single_owner h' \<and> owned_by h' 1 5
          \<and> children h' 0 = [2] \<and> children h' 5 = [6, 7, 1])"
proof -
  have nf: "\<not> isDocumentFragment_obj (h_two 1)"
    by (simp add: h_two_def mk_obj_def isDocumentFragment_obj_def)
  have ob: "owned_by h_two 1 0"
    by (rule owned_byI[OF single_owner_h_two]) (simp add: children_def h_two_def mk_obj_def)
  define h' where "h' = projr (append_node h_two 5 (Some 1))"
  have ev: "append_node h_two 5 (Some 1) = Inr h'"
    unfolding h'_def
    by (simp add: h_two_def mk_obj_def isDocumentFragment_obj_def append_node_def insertNode_def
        newNodes_of_def remove_def splice_array_def nth_opt_def Let_def)
  have k: "children h' 0 = [2] \<and> children h' 5 = [6, 7, 1]"
    unfolding h'_def
    by (simp add: h_two_def mk_obj_def isDocumentFragment_obj_def append_node_def insertNode_def
        newNodes_of_def remove_def splice_array_def nth_opt_def Let_def children_def
        set_childNodes_def set_parentNode_def)
  from mutation_keeps_single_owner[OF single_owner_h_two, where n = 1 and p = 5]
  have "single_owner h'" "owned_by h' 1 5" using nf ev by simp_all
  then show ?thesis using single_owner_h_two nf ob ev k by simp
qed

subsection \<open>Prior order\<close>

lemma reversedView_take:
  "k \<le> length arr \<Longrightarrow> reversedView arr (int k - 1) = of_list (rev (take k arr))"
proof (induction k)
  case 0
  show ?case by (subst reversedView.simps) simp
next
  case (Suc k)
  then have k: "k < length arr" by simp
  have "reversedView arr (int (Suc k) - 1) = Yield (arr ! k) (reversedView arr (int k - 1))"
    using k by (subst reversedView.simps) simp
  then show ?case using Suc.IH k by (simp add: take_Suc_conv_app_nth)
qed

lemma ibind_of_list_map:
  "(\<And>t. t \<in> set ts \<Longrightarrow> f (r t) = of_list (g t)) \<Longrightarrow>
   ibind (of_list (map r ts)) f = of_list (concat (map g ts))"
  by (induction ts) (auto simp: iappend_of_list)

lemma iappend_of_list_Yield:
  "iappend (of_list xs) (Yield y (of_list ys)) = of_list (xs @ y # ys)"
  by (induction xs) auto

lemma depthFirstReversed_listing:
  "unfolds gc t \<Longrightarrow> levels t \<le> fuel \<Longrightarrow>
   depthFirstReversed fuel gc (root t) = of_list (rev (listing t))"
proof (induction t arbitrary: fuel)
  case (Tree n ts)
  from Tree.prems(2) obtain f where fuel: "fuel = Suc f" and f: "foldr max (map levels ts) 0 \<le> f"
    by (cases fuel) auto
  have sub: "depthFirstReversed f gc (root t) = of_list (rev (listing t))" if "t \<in> set ts" for t
  proof (rule Tree.IH[OF that])
    show "unfolds gc t" using Tree.prems(1) that by (simp add: list_all_iff)
    show "levels t \<le> f" using levels_le_foldr_max[OF that] f by simp
  qed
  show ?case
  proof (cases "gc n")
    case None
    then show ?thesis using Tree.prems(1) fuel by simp
  next
    case (Some cs)
    then have cs: "cs = map root ts" using Tree.prems(1) by simp
    have "reversedView cs (int (length cs) - 1) = of_list (map root (rev ts))"
      using reversedView_take[of "length cs" cs] cs by (simp add: rev_map)
    moreover have "ibind (of_list (map root (rev ts))) (depthFirstReversed f gc)
          = of_list (concat (map (\<lambda>t. rev (listing t)) (rev ts)))"
      by (rule ibind_of_list_map) (use sub in auto)
    ultimately show ?thesis
      using Some fuel iappend_of_list_Yield[of _ n "[]"]
      by (simp add: rev_concat rev_map comp_def)
  qed
qed

lemma indexOf_append:
  "x \<notin> set xs \<Longrightarrow> indexOf (xs @ x # ys) x = int (length xs)"
  by (induction xs) (auto simp: Let_def)

lemma root_in_listing: "root t \<in> set (listing t)"
  by (cases t) simp

lemma levels_pos: "0 < levels t"
  by (cases t) simp

lemma iteratePrior_root:
  "o_parentNode (h n) = None \<Longrightarrow> iteratePrior (Suc f) h n = Done"
  by (simp add: previousSiblings_def)

lemma takeWhile_append_notin:
  "(\<And>x. x \<in> set xs \<Longrightarrow> P x) \<Longrightarrow> takeWhile P (xs @ ys) = xs @ takeWhile P ys"
  by (induction xs) auto

lemma iteratePrior_within:
  assumes "unfolds (defaultChildNodes h) s" and "distinct (listing s)" and "parents_below h s"
    and "N \<in> set (listing s)"
  shows "\<exists>d\<le>levels s. \<forall>f\<ge>levels s.
           iteratePrior (d + f) h N
             = iappend (of_list (rev (strictly_before N (listing s)))) (iteratePrior f h (root s))"
  using assms
proof (induction s)
  case (Tree n ts)
  show ?case
  proof (cases "N = n")
    case True
    then have "strictly_before N (listing (Tree n ts)) = []" by (simp add: strictly_before_def)
    then have "\<forall>f\<ge>levels (Tree n ts). iteratePrior (0 + f) h N
             = iappend (of_list (rev (strictly_before N (listing (Tree n ts))))) (iteratePrior f h (root (Tree n ts)))"
      using True by simp
    then show ?thesis by blast
  next
    case False
    then obtain c where c: "c \<in> set ts" and Nc: "N \<in> set (listing c)"
      using Tree.prems(4) by auto
    from split_list[OF c] obtain pre post where ts: "ts = pre @ c # post" by blast
    have dist: "distinct (listing c)" "n \<notin> set (listing c)"
      "set (concat (map listing pre)) \<inter> set (listing c) = {}"
      using Tree.prems(2) ts by auto
    have unf: "list_all (unfolds (defaultChildNodes h)) ts"
      and kids: "defaultChildNodes h n = Some (map root ts)"
      using Tree.prems(1) ts by (auto split: option.splits)
    have par: "o_parentNode (h (root c)) = Some n" "parents_below h c"
      using Tree.prems(3) c by (auto simp: list_all_iff)
    have lev: "levels t < levels (Tree n ts)" if "t \<in> set ts" for t
      using levels_le_foldr_max[OF that] by simp
    from Tree.IH[OF c _ dist(1) par(2) Nc] unf c
    obtain d where d: "d \<le> levels c"
      and ih: "\<forall>f\<ge>levels c. iteratePrior (d + f) h N
             = iappend (of_list (rev (strictly_before N (listing c)))) (iteratePrior f h (root c))"
      by (auto simp: list_all_iff)
    have rootpre: "root c \<notin> set (map root pre)"
      using dist(3) root_in_listing[of c] root_in_listing by fastforce
    have idx: "indexOf (map root ts) (root c) = int (length pre)"
      using indexOf_append[OF rootpre, of "map root post"] ts by simp
    have prev: "previousSiblings h (root c) = of_list (map root (rev pre))"
    proof -
      have "previousSiblings h (root c) = reversedView (map root ts) (int (length pre) - 1)"
        using par(1) kids idx by (simp add: previousSiblings_def defaultChildNodes_def Let_def)
      also have "\<dots> = of_list (rev (take (length pre) (map root ts)))"
        by (rule reversedView_take) (simp add: ts)
      finally show ?thesis by (simp add: ts rev_map)
    qed
    have sb: "strictly_before N (listing (Tree n ts))
              = n # concat (map listing pre) @ strictly_before N (listing c)"
    proof -
      have "takeWhile (\<lambda>x. x \<noteq> N) (concat (map listing pre) @ (listing c @ concat (map listing post)))
            = concat (map listing pre) @ takeWhile (\<lambda>x. x \<noteq> N) (listing c @ concat (map listing post))"
        by (rule takeWhile_append_notin) (use dist(3) Nc in auto)
      moreover have "takeWhile (\<lambda>x. x \<noteq> N) (listing c @ concat (map listing post))
            = takeWhile (\<lambda>x. x \<noteq> N) (listing c)"
        using Nc by (simp add: takeWhile_append1)
      ultimately show ?thesis using False by (simp add: strictly_before_def ts)
    qed
    have step: "iteratePrior (Suc d + f) h N
             = iappend (of_list (rev (strictly_before N (listing (Tree n ts)))))
                 (iteratePrior f h (root (Tree n ts)))"
      if f: "levels (Tree n ts) \<le> f" for f
    proof -
      have fc: "levels c \<le> Suc f" using lev[OF c] f by simp
      have dfr: "depthFirstReversed f (defaultChildNodes h) (root t) = of_list (rev (listing t))"
        if "t \<in> set (rev pre)" for t
      proof (rule depthFirstReversed_listing)
        have t: "t \<in> set ts" using that ts by simp
        show "unfolds (defaultChildNodes h) t" using unf t by (simp add: list_all_iff)
        show "levels t \<le> f" using lev[OF t] f by simp
      qed
      have "ibind (of_list (map root (rev pre))) (depthFirstReversed f (defaultChildNodes h))
            = of_list (concat (map (\<lambda>t. rev (listing t)) (rev pre)))"
        by (rule ibind_of_list_map) (rule dfr)
      then have up: "iteratePrior (Suc f) h (root c)
            = iappend (of_list (rev (concat (map listing pre)))) (Yield n (iteratePrior f h n))"
        using prev par(1) by (simp add: rev_concat rev_map comp_def)
      have "iteratePrior (Suc d + f) h N = iteratePrior (d + Suc f) h N" by simp
      also have "\<dots> = iappend (of_list (rev (strictly_before N (listing c)))) (iteratePrior (Suc f) h (root c))"
        using ih fc by blast
      finally show ?thesis
        unfolding up sb by (simp add: iappend_of_list_any)
    qed
    have "Suc d \<le> levels (Tree n ts)" using d lev[OF c] by simp
    then show ?thesis using step by blast
  qed
qed

lemma find_iter_of_list: "find_iter (of_list xs) p = Return (List.find p xs)"
  by (induction xs) auto

lemma iteratePrior_listing:
  assumes "tree_in_store h t" and "N \<in> set (listing t)" and "2 * levels t \<le> fuel"
  shows "iteratePrior fuel h N = of_list (rev (strictly_before N (listing t)))"
proof -
  from assms(1) have t: "unfolds (defaultChildNodes h) t" "distinct (listing t)"
    "parents_below h t" "o_parentNode (h (root t)) = None"
    by (simp_all add: tree_in_store_def)
  from iteratePrior_within[OF t(1-3) assms(2)] obtain d where d: "d \<le> levels t"
    and w: "\<forall>f\<ge>levels t. iteratePrior (d + f) h N
             = iappend (of_list (rev (strictly_before N (listing t)))) (iteratePrior f h (root t))"
    by blast
  define f where "f = fuel - d"
  have f: "levels t \<le> f" "fuel = d + f" using d assms(3) by (simp_all add: f_def)
  then obtain f' where f': "f = Suc f'" using levels_pos[of t] by (cases f) auto
  have "iteratePrior f h (root t) = Done" unfolding f' using t(4) by (rule iteratePrior_root)
  then show ?thesis using w f
    by (simp add: iappend_of_list[of _ "[]", simplified])
qed

lemma up_to_prefix:
  "N \<in> set xs \<Longrightarrow> \<exists>rest. xs = up_to N xs @ rest"
proof -
  assume "N \<in> set xs"
  then have "dropWhile (\<lambda>x. x \<noteq> N) xs \<noteq> []" by (simp add: dropWhile_eq_Nil_conv)
  moreover have "hd (dropWhile (\<lambda>x. x \<noteq> N) xs) = N"
    using \<open>N \<in> set xs\<close> hd_dropWhile[of "\<lambda>x. x \<noteq> N" xs] calculation by auto
  ultimately obtain rest where "dropWhile (\<lambda>x. x \<noteq> N) xs = N # rest"
    by (cases "dropWhile (\<lambda>x. x \<noteq> N) xs") auto
  then have "xs = takeWhile (\<lambda>x. x \<noteq> N) xs @ N # rest"
    using takeWhile_dropWhile_id[of "\<lambda>x. x \<noteq> N" xs] by simp
  then show ?thesis unfolding up_to_def by auto
qed

text \<open>
  C1. For a whole consistent tree \<open>t\<close> of the store, a node \<open>N\<close> of it and a depth
  bound of twice the levels of \<open>t\<close>: \<open>iteratePrior\<close> yields a sequence \<open>prior\<close> and
  returns, \<open>iteratePriorIncludingNode\<close> yields \<open>N\<close> followed by \<open>prior\<close>, and this
  sequence reversed is the prefix of the \<open>depthFirst\<close> sequence of the root up to and
  including \<open>N\<close>.
\<close>

theorem prior_order_reversed_is_prefix:
  assumes "tree_in_store h t" and "N \<in> set (listing t)" and "2 * levels t \<le> fuel"
  shows "\<exists>prior rest.
           iteratePrior fuel h N = of_list prior
         \<and> iteratePriorIncludingNode fuel h N = of_list (N # prior)
         \<and> depthFirst fuel (defaultChildNodes h) (root t) = of_list (rev (N # prior) @ rest)
         \<and> rev (N # prior) = up_to N (listing t)"
proof -
  let ?prior = "rev (strictly_before N (listing t))"
  have 1: "iteratePrior fuel h N = of_list ?prior"
    by (rule iteratePrior_listing[OF assms])
  then have 2: "iteratePriorIncludingNode fuel h N = of_list (N # ?prior)"
    by (simp add: iteratePriorIncludingNode_def)
  have 4: "rev (N # ?prior) = up_to N (listing t)"
    by (simp add: up_to_def strictly_before_def)
  from up_to_prefix[OF assms(2)] obtain rest where r: "listing t = up_to N (listing t) @ rest"
    by blast
  have "depthFirst fuel (defaultChildNodes h) (root t) = of_list (listing t)"
    by (rule depthFirst_listing) (use assms in \<open>simp_all add: tree_in_store_def\<close>)
  then have 3: "depthFirst fuel (defaultChildNodes h) (root t) = of_list (rev (N # ?prior) @ rest)"
    using r 4 by simp
  from 1 2 3 4 show ?thesis by blast
qed

lemma tree_in_store_example: "tree_in_store h_tree t_tree"
  by (simp add: tree_in_store_def t_tree_def h_tree_def mk_obj_def defaultChildNodes_def)

theorem prior_order_reversed_is_prefix_witness:
  "iteratePriorIncludingNode 6 h_tree 4 = of_list [4, 3, 2, 1, 0]
   \<and> (\<exists>rest. depthFirst 6 (defaultChildNodes h_tree) 0 = of_list ([0, 1, 2, 3, 4] @ rest))"
proof -
  have N: "(4::nat) \<in> set (listing t_tree)" and f: "2 * levels t_tree \<le> 6"
    by (simp_all add: t_tree_def)
  from prior_order_reversed_is_prefix[OF tree_in_store_example N f]
  obtain prior rest where p:
    "iteratePriorIncludingNode 6 h_tree 4 = of_list (4 # prior)"
    "depthFirst 6 (defaultChildNodes h_tree) (root t_tree) = of_list (rev (4 # prior) @ rest)"
    "rev (4 # prior) = up_to 4 (listing t_tree)"
    by blast
  have u: "up_to 4 (listing t_tree) = [0, 1, 2, 3, 4::nat]"
    by (simp add: up_to_def t_tree_def)
  have "rev (rev (4 # prior)) = rev [0, 1, 2, 3, 4]" using p(3) u by (simp only:)
  then have pr: "prior = [3, 2, 1, 0]" by simp
  show ?thesis using p(1,2) unfolding pr by (auto simp: t_tree_def)
qed

text \<open>
  C4 (as amended). For a whole consistent tree \<open>t\<close> of the store, a node \<open>N\<close> of it
  and every predicate, \<open>nodeWalkPrior\<close> returns the first node that satisfies the
  predicate among the nodes strictly before \<open>N\<close> in document order, taken in reverse
  document order (the descendants of earlier siblings included, \<open>N\<close> itself not), or
  no node when none of them satisfies it.
\<close>

theorem nodeWalkPrior_first_preceding:
  assumes "tree_in_store h t" and "N \<in> set (listing t)" and "2 * levels t \<le> fuel"
  shows "nodeWalkPrior fuel h N predicate
           = Return (List.find predicate (rev (strictly_before N (listing t))))"
  unfolding nodeWalkPrior_def iteratePrior_listing[OF assms] by (rule find_iter_of_list)

theorem nodeWalkPrior_first_preceding_witness:
  "nodeWalkPrior 6 h_tree 4 (\<lambda>n. n = 2 \<or> n = 0) = Return (Some 2)"
proof -
  have N: "(4::nat) \<in> set (listing t_tree)" and f: "2 * levels t_tree \<le> 6"
    by (simp_all add: t_tree_def)
  show ?thesis
    unfolding nodeWalkPrior_first_preceding[OF tree_in_store_example N f]
    by (simp add: strictly_before_def t_tree_def)
qed

text \<open>
  With a predicate that only \<open>N\<close> satisfies, \<open>nodeWalkPrior\<close> finds nothing, although
  \<open>N\<close> heads the sequence that includes it.
\<close>

theorem nodeWalkPrior_excludes_node_counterexample:
  "iteratePriorIncludingNode 6 h_tree 4 = of_list [4, 3, 2, 1, 0]
   \<and> nodeWalkPrior 6 h_tree 4 (\<lambda>n. n = 4) = Return None"
  by code_simp

text \<open>
  The older \<open>nodeWalkPrior\<close> of dom5.ts starts at the previous sibling as well. It
  does not return a descendant of an earlier sibling: the text node 3, below the
  earlier sibling 1 of node 4, is found by the walking.ts function only.
\<close>

lemma nodeWalkPrior_dom5_example:
  "nodeWalkPrior_dom5 6 h_tree 4 (\<lambda>n. n = 4) = Return None
   \<and> nodeWalkPrior_dom5 6 h_tree 4 (\<lambda>n. n = 3) = Return None
   \<and> nodeWalkPrior 6 h_tree 4 (\<lambda>n. n = 3) = Return (Some 3)
   \<and> nodeWalkPrior_dom5 6 h_tree 4 (\<lambda>n. n = 1 \<or> n = 0) = Return (Some 1)"
  by code_simp

end
